theory Spec2Isabelle
  imports Complex_Main "HOL-Library.Sublist" "HOL-Library.AList" "HOL-Library.Multiset"
begin

section \<open>JavaScript values used by the scrapers\<close>

text \<open>
  A JavaScript string is a list of characters.  Where the code only tests a property
  that holds a string or nothing (a link, an error message), \<open>None\<close> stands for \<open>null\<close>,
  \<open>undefined\<close> and an absent property alike: all three are falsy and the code does not
  tell them apart there.  A string is truthy when it is not empty.
\<close>

definition truthy :: "string option \<Rightarrow> bool" where
  "truthy v = (case v of None \<Rightarrow> False | Some s \<Rightarrow> s \<noteq> [])"

text \<open>
  The properties of a funding round are also used as property names and copied into
  new objects, where \<open>undefined\<close> (an absent property) and \<open>null\<close> differ: as a property
  name or inside a template literal the first reads \<open>undefined\<close> and the second \<open>null\<close>.
\<close>

datatype property = Undefined | Null | Str string

definition truthy_property :: "property \<Rightarrow> bool" where
  "truthy_property v = (case v of Str s \<Rightarrow> s \<noteq> [] | _ \<Rightarrow> False)"

definition js_string :: "property \<Rightarrow> string" where
  "js_string v = (case v of Undefined \<Rightarrow> ''undefined'' | Null \<Rightarrow> ''null'' | Str s \<Rightarrow> s)"

text \<open>\<open>a || null\<close> on a string-or-null value.\<close>

definition or_null :: "string option \<Rightarrow> string option" where
  "or_null v = (if truthy v then v else None)"

text \<open>\<open>String.prototype.includes\<close>.\<close>

definition str_includes :: "string \<Rightarrow> string \<Rightarrow> bool" where
  "str_includes s part = sublist part s"

text \<open>
  \<open>Map.prototype.set\<close> on a \<open>Map\<close> kept as an association list in insertion order: a
  key that is present keeps its position and gets the new value, a new key goes last.
  \<open>Array.from(m.values())\<close> is \<open>map snd\<close>.
\<close>

definition map_set :: "'k \<Rightarrow> 'v \<Rightarrow> ('k \<times> 'v) list \<Rightarrow> ('k \<times> 'v) list" where
  "map_set k v m = AList.update k v m"

definition map_has :: "('k \<times> 'v) list \<Rightarrow> 'k \<Rightarrow> bool" where
  "map_has m k = (k \<in> fst ` set m)"

text \<open>
  \<open>Array.prototype.sort\<close> with a comparator.  The language fixes the result for a
  consistent comparator: the stable sorted arrangement, which insertion from the right
  computes.  For an inconsistent comparator the language leaves the order open (the
  result is still a rearrangement); the model then gives the insertion order.
\<close>

fun insert_sorted :: "('a \<Rightarrow> 'a \<Rightarrow> int) \<Rightarrow> 'a \<Rightarrow> 'a list \<Rightarrow> 'a list" where
  "insert_sorted cmp x [] = [x]"
| "insert_sorted cmp x (y # ys) =
     (if cmp x y \<le> 0 then x # y # ys else y # insert_sorted cmp x ys)"

definition array_sort :: "('a \<Rightarrow> 'a \<Rightarrow> int) \<Rightarrow> 'a list \<Rightarrow> 'a list" where
  "array_sort cmp xs = foldr (insert_sorted cmp) xs []"

section \<open>Amounts: \<open>parseRaiseAmount\<close> and \<open>parseAmount\<close>\<close>

text \<open>
  Characters are 8-bit codes, read as the code units 0 to 255 of a JavaScript string.
  In that range the class \<open>\s\<close> holds TAB, LF, VT, FF, CR, SPACE and NBSP.
\<close>

definition isSpace :: "char \<Rightarrow> bool" where
  "isSpace c = ((of_char c :: nat) \<in> {9, 10, 11, 12, 13, 32, 160})"

definition isDigit :: "char \<Rightarrow> bool" where
  "isDigit c = (c \<in> set ''0123456789'')"

definition isDigitOrDot :: "char \<Rightarrow> bool" where
  "isDigitOrDot c = (isDigit c \<or> c = CHR ''.'')"

text \<open>
  \<open>toUpperCase\<close> on the letters a to z.  The other characters stay as they are: the
  language maps none of them to a digit, a dot, K, M or B, so the match below sees no
  difference.
\<close>

definition toUpperCase_char :: "char \<Rightarrow> char" where
  "toUpperCase_char c =
     (case map_of (zip ''abcdefghijklmnopqrstuvwxyz'' ''ABCDEFGHIJKLMNOPQRSTUVWXYZ'') c of
        Some u \<Rightarrow> u
      | None \<Rightarrow> c)"

definition toUpperCase :: "string \<Rightarrow> string" where
  "toUpperCase s = map toUpperCase_char s"

text \<open>\<open>amountStr.replace(/[$,\s]/g, '').toUpperCase()\<close>\<close>

definition cleaned :: "string \<Rightarrow> string" where
  "cleaned amountStr =
     toUpperCase (filter (\<lambda>c. \<not> (c = CHR ''$'' \<or> c = CHR '','' \<or> isSpace c)) amountStr)"

text \<open>
  \<open>cleaned.match(/^([\d.]+)([KMB])?$/)\<close>: the two groups, or \<open>None\<close> for no match.  The
  first group is greedy and shares no character with the second, so no backtracking
  is needed.
\<close>

definition match_amount :: "string \<Rightarrow> (string \<times> char option) option" where
  "match_amount s =
     (let digits = takeWhile isDigitOrDot s; rest = dropWhile isDigitOrDot s in
      if digits = [] then None
      else (case rest of
              [] \<Rightarrow> Some (digits, None)
            | [c] \<Rightarrow> if c = CHR ''K'' \<or> c = CHR ''M'' \<or> c = CHR ''B''
                     then Some (digits, Some c) else None
            | _ \<Rightarrow> None))"

text \<open>
  The Numbers these functions compute with are IEEE 754 doubles that are not negative:
  a finite double, kept by its exact value, or \<open>Infinity\<close>; \<open>NaN\<close> is \<open>None\<close> where it can
  arise.  \<open>to_double q\<close> is the double nearest to the rational \<open>q \<ge> 0\<close>, ties going to the
  even significand: with \<open>2\<^sup>e \<le> q < 2\<^sup>e\<^sup>+\<^sup>1\<close> the doubles around \<open>q\<close> are the multiples of
  \<open>2\<^sup>e\<^sup>-\<^sup>5\<^sup>2\<close> (of \<open>2\<^sup>-\<^sup>1\<^sup>0\<^sup>7\<^sup>4\<close> below \<open>2\<^sup>-\<^sup>1\<^sup>0\<^sup>2\<^sup>2\<close>, the subnormal range), and a result of
  \<open>2\<^sup>1\<^sup>0\<^sup>2\<^sup>4\<close> or more is \<open>Infinity\<close>.
\<close>

datatype number = Finite rat | Infinity

text \<open>The number of binary digits of \<open>n\<close>.\<close>

function bit_length :: "nat \<Rightarrow> nat" where
  "bit_length n = (if n = 0 then 0 else Suc (bit_length (n div 2)))"
  by pat_completeness auto
termination
  by (relation "measure id") auto

definition pow2 :: "int \<Rightarrow> rat" where
  "pow2 e = (if 0 \<le> e then 2 ^ nat e else 1 / 2 ^ nat (- e))"

text \<open>For \<open>q > 0\<close>, the \<open>e\<close> with \<open>2\<^sup>e \<le> q < 2\<^sup>e\<^sup>+\<^sup>1\<close>.\<close>

definition exponent :: "rat \<Rightarrow> int" where
  "exponent q =
     (if 1 \<le> q then int (bit_length (nat \<lfloor>q\<rfloor>)) - 1
      else - int (bit_length (nat (\<lceil>1 / q\<rceil> - 1))))"

text \<open>The integer nearest to \<open>x\<close>, the even one of the two when \<open>x\<close> lies midway.\<close>

definition round_half_even :: "rat \<Rightarrow> int" where
  "round_half_even x =
     (let f = \<lfloor>x\<rfloor>; d = x - of_int f in
      if d < 1 / 2 then f else if 1 / 2 < d then f + 1
      else if even f then f else f + 1)"

text \<open>The distance between the doubles around \<open>q > 0\<close>.\<close>

definition ulp_of :: "rat \<Rightarrow> rat" where
  "ulp_of q = pow2 (max (exponent q) (- 1022) - 52)"

definition to_double :: "rat \<Rightarrow> number" where
  "to_double q =
     (if q = 0 then Finite 0
      else (let r = of_int (round_half_even (q / ulp_of q)) * ulp_of q
            in if pow2 1024 \<le> r then Infinity else Finite r))"

text \<open>
  \<open>x * k\<close> for a double \<open>x\<close> and a positive double \<open>k\<close>, given by its value: the double
  nearest to the exact product.
\<close>

definition times_number :: "number \<Rightarrow> rat \<Rightarrow> number" where
  "times_number x k = (case x of Infinity \<Rightarrow> Infinity | Finite q \<Rightarrow> to_double (q * k))"

definition digits_val :: "string \<Rightarrow> nat" where
  "digits_val ds = foldl (\<lambda>a c. 10 * a + (of_char c - 48)) 0 ds"

text \<open>
  \<open>parseFloat\<close> on a string of digits and dots, the only strings it is given here: the
  longest prefix of the form digits, digits \<open>.\<close> digits or \<open>.\<close> digits is read, and \<open>None\<close>
  stands for \<open>NaN\<close> (no such prefix).  The result is the double nearest to the decimal
  that was read.  (The language lets an implementation round a literal of more than 20
  significant digits less exactly; V8, which runs this program, rounds every literal to
  the nearest double.)
\<close>

definition parseFloat :: "string \<Rightarrow> number option" where
  "parseFloat s =
     (let int_part = takeWhile isDigit s;
          rest = dropWhile isDigit s;
          frac_part = (case rest of [] \<Rightarrow> []
                       | c # t \<Rightarrow> if c = CHR ''.'' then takeWhile isDigit t else [])
      in if int_part = [] \<and> frac_part = [] then None
         else Some (to_double (of_nat (digits_val int_part)
                               + of_nat (digits_val frac_part) / 10 ^ length frac_part)))"

definition parseRaiseAmount :: "string option \<Rightarrow> number option" where
  "parseRaiseAmount amountStr =
     (case amountStr of
        None \<Rightarrow> None
      | Some s \<Rightarrow>
          if s = [] \<or> s = ''-'' \<or> s = ''N/A'' then None
          else (case match_amount (cleaned s) of
                  None \<Rightarrow> None
                | Some (digits, multiplier) \<Rightarrow>
                    (case parseFloat digits of
                       None \<Rightarrow> None
                     | Some num \<Rightarrow>
                         if multiplier = Some (CHR ''K'') then Some (times_number num 1000)
                         else if multiplier = Some (CHR ''M'')
                           then Some (times_number num 1000000)
                         else if multiplier = Some (CHR ''B'')
                           then Some (times_number num 1000000000)
                         else Some num)))"

text \<open>\<open>parseAmount\<close> of the project details scraper, which has the same body.\<close>

definition parseAmount :: "string option \<Rightarrow> number option" where
  "parseAmount amountStr =
     (case amountStr of
        None \<Rightarrow> None
      | Some s \<Rightarrow>
          if s = [] \<or> s = ''-'' \<or> s = ''N/A'' then None
          else (case match_amount (cleaned s) of
                  None \<Rightarrow> None
                | Some (digits, multiplier) \<Rightarrow>
                    (case parseFloat digits of
                       None \<Rightarrow> None
                     | Some num \<Rightarrow>
                         if multiplier = Some (CHR ''K'') then Some (times_number num 1000)
                         else if multiplier = Some (CHR ''M'')
                           then Some (times_number num 1000000)
                         else if multiplier = Some (CHR ''B'')
                           then Some (times_number num 1000000000)
                         else Some num)))"

text \<open>
  The shape the amount must have after cleaning, in words: digits and dots, at least
  one, then nothing or one of K, M, B; and the factor each suffix stands for.
\<close>

definition amount_shape :: "string \<Rightarrow> string \<Rightarrow> string \<Rightarrow> bool" where
  "amount_shape c ds suf =
     (c = ds @ suf \<and> ds \<noteq> [] \<and> list_all isDigitOrDot ds
      \<and> suf \<in> {[], ''K'', ''M'', ''B''})"

definition factor :: "string \<Rightarrow> rat" where
  "factor suf =
     (if suf = ''K'' then 1000 else if suf = ''M'' then 1000000
      else if suf = ''B'' then 1000000000 else 1)"

text \<open>The decimal that \<open>parseFloat\<close> reads from digits \<open>ip\<close>, a dot and digits \<open>fp\<close>.\<close>

definition decimal :: "string \<Rightarrow> string \<Rightarrow> rat" where
  "decimal ip fp = of_nat (digits_val ip) + of_nat (digits_val fp) / 10 ^ length fp"

section \<open>Project details: \<open>extractUniqueProjects\<close>\<close>

text \<open>
  The three properties of a funding round that \<open>extractUniqueProjects\<close> reads; a round
  carries more (amount, stage, investors, date), kept in the record's extension.
\<close>

record project =
  projectKey :: property
  projectName :: property
  projectUrl :: property

text \<open>The object literal that the loop pushes for a round.\<close>

definition project_of :: "'a project_scheme \<Rightarrow> project" where
  "project_of round' =
     \<lparr>projectKey = projectKey round', projectName = projectName round',
      projectUrl = projectUrl round'\<rparr>"

text \<open>
  The body of the \<open>for (const round of fundingRounds)\<close> loop, with the \<open>seen\<close> set and
  the \<open>projects\<close> array passed along.
\<close>

fun extractUniqueProjects_loop ::
  "property set \<Rightarrow> project list \<Rightarrow> 'a project_scheme list \<Rightarrow> project list" where
  "extractUniqueProjects_loop seen projects [] = projects"
| "extractUniqueProjects_loop seen projects (round' # rest) =
     (if truthy_property (projectKey round') \<and> projectKey round' \<notin> seen
      then extractUniqueProjects_loop (insert (projectKey round') seen)
             (projects @ [project_of round']) rest
      else extractUniqueProjects_loop seen projects rest)"

definition extractUniqueProjects :: "'a project_scheme list \<Rightarrow> project list" where
  "extractUniqueProjects fundingRounds = extractUniqueProjects_loop {} [] fundingRounds"

section \<open>The retry wrappers of the scrapers\<close>

text \<open>
  What one pass through the \<open>try\<close> block meets, as far as the wrapper can see.  Either
  some step (reconnecting, opening the tab, navigating, extracting, closing the tab)
  throws an error with a message, or every step returns and the extraction yields its
  payload.  The browser, the network and the page are outside the program: the outcome
  of attempt number \<open>n\<close> on a URL is a parameter of the model.  The wait of 2000 ms
  after a selector timeout happens inside the attempt and is part of its outcome.
\<close>

datatype 'p outcome = Raises string | Extracted 'p

text \<open>
  What the wrapper does that can be observed from outside: it starts an attempt (which
  calls \<open>ensureConnected\<close> first), drops the browser handle (\<open>this.browser = null\<close>), or
  waits before the next attempt.  Screenshots are left out: \<open>saveScreenshot\<close> swallows
  its own errors and returns nothing.
\<close>

datatype attempt_event = Attempt nat | DropBrowser | RetryDelay nat

definition MAX_RETRIES :: nat where
  "MAX_RETRIES = 3"

definition RETRY_DELAY_MS :: nat where
  "RETRY_DELAY_MS = 2000"

text \<open>
  The \<open>catch\<close> block, shared by the three scrapers: the events it adds for an error
  with message \<open>msg\<close> on attempt \<open>attempt\<close> of \<open>maxRetries\<close>.
\<close>

definition connection_lost :: "string \<Rightarrow> bool" where
  "connection_lost msg =
     (str_includes msg ''Connection closed'' \<or> str_includes msg ''Protocol error''
      \<or> str_includes msg ''Target closed'')"

definition catch_events :: "nat \<Rightarrow> nat \<Rightarrow> string \<Rightarrow> attempt_event list" where
  "catch_events maxRetries attempt msg =
     (if connection_lost msg then [DropBrowser] else [])
     @ (if attempt < maxRetries then [RetryDelay RETRY_DELAY_MS] else [])"

text \<open>\<open>lastError?.message || 'Unknown error'\<close>, with \<open>lastError\<close> kept as its message.\<close>

definition last_message :: "string option \<Rightarrow> string" where
  "last_message lastError =
     (case lastError of
        None \<Rightarrow> ''Unknown error''
      | Some message \<Rightarrow> if message = [] then ''Unknown error'' else message)"

subsection \<open>Fund pages: \<open>FundScraper.scrapeFund\<close>\<close>

record links =
  website :: "string option"
  twitter :: "string option"
  telegram :: "string option"
  discord :: "string option"
  medium :: "string option"
  linkedin :: "string option"
  github :: "string option"
  youtube :: "string option"
  facebook :: "string option"
  instagram :: "string option"
  reddit :: "string option"

text \<open>The object \<open>{ ...links, error }\<close> that \<open>scrapeFund\<close> returns.\<close>

record scrape_result = links +
  error :: "string option"

definition no_links :: links where
  "no_links = \<lparr>website = None, twitter = None, telegram = None, discord = None,
     medium = None, linkedin = None, github = None, youtube = None, facebook = None,
     instagram = None, reddit = None\<rparr>"

text \<open>\<open>Object.values(links).some(v => v !== null)\<close>\<close>

definition hasAnyLinks :: "links \<Rightarrow> bool" where
  "hasAnyLinks l =
     (website l \<noteq> None \<or> twitter l \<noteq> None \<or> telegram l \<noteq> None \<or> discord l \<noteq> None
      \<or> medium l \<noteq> None \<or> linkedin l \<noteq> None \<or> github l \<noteq> None \<or> youtube l \<noteq> None
      \<or> facebook l \<noteq> None \<or> instagram l \<noteq> None \<or> reddit l \<noteq> None)"

definition with_error :: "links \<Rightarrow> string option \<Rightarrow> scrape_result" where
  "with_error l e = links.extend l \<lparr>error = e\<rparr>"

text \<open>
  The \<open>for (let attempt = 1; attempt <= MAX_RETRIES; attempt++)\<close> loop and the return
  after it.  The bound is an argument, so that the loop can be studied for every
  attempt budget; the program runs it with \<open>MAX_RETRIES\<close>.  The state passed along is
  \<open>lastError\<close> and the events so far.
\<close>

function scrapeFund_loop ::
  "nat \<Rightarrow> (nat \<Rightarrow> links outcome) \<Rightarrow> nat \<Rightarrow> string option \<Rightarrow> attempt_event list
   \<Rightarrow> scrape_result \<times> attempt_event list" where
  "scrapeFund_loop maxRetries page attempt lastError evs =
     (if attempt \<le> maxRetries then
        (case page attempt of
           Extracted l \<Rightarrow>
             if \<not> hasAnyLinks l \<and> attempt < maxRetries then
               scrapeFund_loop maxRetries page (attempt + 1)
                 (Some ''No social links found - retrying'')
                 (evs @ [Attempt attempt]
                  @ catch_events maxRetries attempt ''No social links found - retrying'')
             else if \<not> hasAnyLinks l then
               (with_error l (Some ''No social links found''), evs @ [Attempt attempt])
             else (with_error l None, evs @ [Attempt attempt])
         | Raises msg \<Rightarrow>
             scrapeFund_loop maxRetries page (attempt + 1) (Some msg)
               (evs @ [Attempt attempt] @ catch_events maxRetries attempt msg))
      else (with_error no_links (Some (last_message lastError)), evs))"
  by pat_completeness auto
termination
  by (relation "measure (\<lambda>(maxRetries, page, attempt, lastError, evs). Suc maxRetries - attempt)")
    auto

definition CRYPTORANK_FUND_URL :: string where
  "CRYPTORANK_FUND_URL = ''https://cryptorank.io/funds/''"

text \<open>
  \<open>scrapeFund(key, index, total)\<close>; \<open>browser url n\<close> is the outcome of the \<open>n\<close>-th
  attempt on \<open>url\<close>.  The arguments \<open>index\<close> and \<open>total\<close> are not used by the body.
\<close>

definition scrapeFund ::
  "(string \<Rightarrow> nat \<Rightarrow> links outcome) \<Rightarrow> string \<Rightarrow> scrape_result \<times> attempt_event list" where
  "scrapeFund browser key =
     scrapeFund_loop MAX_RETRIES (browser (CRYPTORANK_FUND_URL @ key)) 1 None []"

subsection \<open>Funding round pages: \<open>FundingRoundsScraper.scrapePage\<close>\<close>

text \<open>
  The object \<open>{ data, error }\<close> that \<open>scrapePage\<close> returns.  The rows are whatever
  \<open>extractRowData\<close> yields; \<open>rawData.map(...)\<close> adds the parsed amount, the parsed date
  and a time stamp to each row and is the parameter \<open>post\<close>.
\<close>

record 'row page_result =
  page_data :: "'row list"
  page_error :: "string option"

function scrapePage_loop ::
  "nat \<Rightarrow> ('raw \<Rightarrow> 'row) \<Rightarrow> (nat \<Rightarrow> 'raw list outcome) \<Rightarrow> nat \<Rightarrow> string option
   \<Rightarrow> attempt_event list \<Rightarrow> 'row page_result \<times> attempt_event list" where
  "scrapePage_loop maxRetries post page attempt lastError evs =
     (if attempt \<le> maxRetries then
        (case page attempt of
           Extracted rawData \<Rightarrow>
             if map post rawData = [] \<and> attempt < maxRetries then
               scrapePage_loop maxRetries post page (attempt + 1)
                 (Some ''No funding rounds found - retrying'')
                 (evs @ [Attempt attempt]
                  @ catch_events maxRetries attempt ''No funding rounds found - retrying'')
             else (\<lparr>page_data = map post rawData, page_error = None\<rparr>,
                   evs @ [Attempt attempt])
         | Raises msg \<Rightarrow>
             scrapePage_loop maxRetries post page (attempt + 1) (Some msg)
               (evs @ [Attempt attempt] @ catch_events maxRetries attempt msg))
      else (\<lparr>page_data = [], page_error = Some (last_message lastError)\<rparr>, evs))"
  by pat_completeness auto
termination
  by (relation
      "measure (\<lambda>(maxRetries, post, page, attempt, lastError, evs). Suc maxRetries - attempt)")
    auto

definition CRYPTORANK_FUNDING_URL :: string where
  "CRYPTORANK_FUNDING_URL = ''https://cryptorank.io/funding-rounds''"

text \<open>
  \<open>scrapePage(pageNumber)\<close>.  The URL is the listing itself for page 1 and carries the
  page number otherwise; \<open>show_nat\<close> stands for the decimal digits of the number.
\<close>

definition scrapePage ::
  "(nat \<Rightarrow> string) \<Rightarrow> ('raw \<Rightarrow> 'row) \<Rightarrow> (string \<Rightarrow> nat \<Rightarrow> 'raw list outcome) \<Rightarrow> nat
   \<Rightarrow> 'row page_result \<times> attempt_event list" where
  "scrapePage show_nat post browser pageNumber =
     scrapePage_loop MAX_RETRIES post
       (browser (if pageNumber = 1 then CRYPTORANK_FUNDING_URL
                 else CRYPTORANK_FUNDING_URL @ ''?page='' @ show_nat pageNumber))
       1 None []"

text \<open>
  The list \<open>xs\<close> with \<open>d\<close> put between every two neighbours, and nowhere else: what a
  run looks like when there is a wait between two fetches, none before the first and
  none after the last.
\<close>

fun between :: "'a \<Rightarrow> 'a list \<Rightarrow> 'a list" where
  "between d [] = []"
| "between d [x] = [x]"
| "between d (x # y # zs) = x # d # between d (y # zs)"

definition is_Attempt :: "attempt_event \<Rightarrow> bool" where
  "is_Attempt e = (case e of Attempt n \<Rightarrow> True | _ \<Rightarrow> False)"

definition is_RetryDelay :: "attempt_event \<Rightarrow> bool" where
  "is_RetryDelay e = (case e of RetryDelay ms \<Rightarrow> True | _ \<Rightarrow> False)"

subsection \<open>Project pages: \<open>ProjectDetailsScraper.scrapeProject\<close>\<close>

text \<open>
  The object \<open>{ details, error }\<close> that \<open>scrapeProject\<close> returns.  This wrapper has no
  test for an empty extraction: whatever \<open>extractDetails\<close> yields is a success.
\<close>

record 'd project_result =
  details :: "'d option"
  details_error :: "string option"

function scrapeProject_loop ::
  "nat \<Rightarrow> (nat \<Rightarrow> 'd outcome) \<Rightarrow> nat \<Rightarrow> string option \<Rightarrow> attempt_event list
   \<Rightarrow> 'd project_result \<times> attempt_event list" where
  "scrapeProject_loop maxRetries page attempt lastError evs =
     (if attempt \<le> maxRetries then
        (case page attempt of
           Extracted d \<Rightarrow>
             (\<lparr>details = Some d, details_error = None\<rparr>, evs @ [Attempt attempt])
         | Raises msg \<Rightarrow>
             scrapeProject_loop maxRetries page (attempt + 1) (Some msg)
               (evs @ [Attempt attempt] @ catch_events maxRetries attempt msg))
      else (\<lparr>details = None, details_error = Some (last_message lastError)\<rparr>, evs))"
  by pat_completeness auto
termination
  by (relation "measure (\<lambda>(maxRetries, page, attempt, lastError, evs). Suc maxRetries - attempt)")
    auto

definition scrapeProject ::
  "(string \<Rightarrow> nat \<Rightarrow> 'd outcome) \<Rightarrow> string \<Rightarrow> 'd project_result \<times> attempt_event list" where
  "scrapeProject browser projectKey' =
     scrapeProject_loop MAX_RETRIES (browser (''https://cryptorank.io/price/'' @ projectKey'))
       1 None []"

section \<open>Runs of the three entry points\<close>

text \<open>
  What a run of an entry point does, seen from outside: it connects to the browser
  service, processes a unit of work (one call of the scraper's retry wrapper on a
  target), writes the output file with some content, waits between two units, and
  disconnects.  A run ends by \<open>process.exit(1)\<close> with a message, by the early return
  when everything is cached (the file is not written), or normally after the final
  write of its output.
\<close>

datatype ('t, 'f) event = Connect | Scrape 't | Save 'f | Throttle nat | Disconnect

datatype 'f ending = Exit1 string | FromCache | Completed 'f

record ('t, 'f) run =
  events :: "('t, 'f) event list"
  ending :: "'f ending"

definition is_Scrape :: "('t, 'f) event \<Rightarrow> bool" where
  "is_Scrape e = (case e of Scrape t \<Rightarrow> True | _ \<Rightarrow> False)"

definition is_Throttle :: "('t, 'f) event \<Rightarrow> bool" where
  "is_Throttle e = (case e of Throttle ms \<Rightarrow> True | _ \<Rightarrow> False)"

text \<open>
  The part every output file shares; a time stamp is the instant in milliseconds
  (\<open>toISOString\<close> only prints it).
\<close>

record stamp =
  generatedAt :: int
  source :: string
  partial :: bool
  durationMs :: int

record ('m, 'd) saved =
  metadata :: 'm
  data :: "'d list"

text \<open>
  What every entry point meets outside the program: the command line, whether the
  first connection and the final write succeed (\<open>Some\<close> message when not), the pages
  (by unit index, URL and attempt) and the clock (by reading, counting the readings
  of the entry point itself).  Errors of the partial writes are ignored by the program
  and change nothing it does.
\<close>

record 'p world =
  argv :: "string list"
  connect_error :: "string option"
  browser :: "nat \<Rightarrow> string \<Rightarrow> nat \<Rightarrow> 'p outcome"
  clock :: "nat \<Rightarrow> int"
  final_write_error :: "string option"

text \<open>The counters and the events so far, which every scraping loop carries.\<close>

record ('t, 'f) progress =
  successCount :: nat
  failCount :: nat
  log :: "('t, 'f) event list"

subsection \<open>The fund list: \<open>api.js\<close>\<close>

record fund =
  id_f :: int
  key :: string
  name :: string
  tier :: int
  type :: string

text \<open>
  The answer of the upstream source: the request fails (it throws, or the response is
  not ok), the body has no \<open>data\<close> array, or the body holds the funds.
\<close>

datatype api_response = RequestFailed string | InvalidFormat | FundsData "fund list"

definition fetchFundsByTiers :: "int list \<Rightarrow> api_response \<Rightarrow> string + fund list" where
  "fetchFundsByTiers tiers' response =
     (case response of
        RequestFailed msg \<Rightarrow> Inl msg
      | InvalidFormat \<Rightarrow> Inl ''Invalid API response format''
      | FundsData d \<Rightarrow> Inr (filter (\<lambda>fund. tier fund \<in> set tiers') d))"

definition fetchTier1Funds :: "api_response \<Rightarrow> string + fund list" where
  "fetchTier1Funds response = fetchFundsByTiers [1] response"

definition fetchTier1And2Funds :: "api_response \<Rightarrow> string + fund list" where
  "fetchTier1And2Funds response = fetchFundsByTiers [1, 2] response"

subsection \<open>The fund scraper's entry point\<close>

text \<open>
  A Record of the output file.  In the file it is one flat object; here its properties
  are grouped: the fund's own (\<open>id\<close>, \<open>key\<close>, \<open>name\<close>, \<open>tier\<close>, \<open>type\<close>), then \<open>url\<close>, then
  under \<open>scraped\<close> the top-level link properties together with \<open>error\<close>, then
  \<open>scrapedAt\<close> and \<open>other_socials\<close> (absent when there is none).  The entry point writes
  only \<open>website\<close> and \<open>twitter\<close> at the top level; a file may hold the other nine.
\<close>

record fund_record = fund +
  url :: "string option"
  scraped :: scrape_result
  scrapedAt :: int
  other_socials :: "(string \<times> string) list option"

record fund_metadata = stamp +
  tiers :: "int list"
  totalFunds :: nat
  successfulScrapes :: nat
  failedScrapes :: nat
  fromCache :: "nat option"
  newlyScrapped :: "nat option"

type_synonym resultset = "(fund_metadata, fund_record) saved"

text \<open>
  The output file as \<open>loadCache\<close> meets it: not there, not readable or not JSON, JSON
  without a \<open>data\<close> array, or a stored ResultSet.
\<close>

datatype disk_file = Absent | Unparseable | OtherJson | Stored resultset

definition OUTPUT_FILE_TIER1 :: string where
  "OUTPUT_FILE_TIER1 = ''./output/tier1-vcs.json''"

definition OUTPUT_FILE_TIER1_2 :: string where
  "OUTPUT_FILE_TIER1_2 = ''./output/tier1-2-vcs.json''"

definition DELAY_BETWEEN_REQUESTS_MS :: nat where
  "DELAY_BETWEEN_REQUESTS_MS = 1500"

text \<open>\<open>parseArgs\<close> of the fund scraper.\<close>

record flags =
  includeTier2 :: bool
  enableScreenshots :: bool

definition parseArgs :: "string list \<Rightarrow> flags" where
  "parseArgs args =
     \<lparr>includeTier2 = (''--tier2'' \<in> set args \<or> ''-t2'' \<in> set args),
      enableScreenshots = (''--screenshots'' \<in> set args \<or> ''-s'' \<in> set args)\<rparr>"

text \<open>The test \<open>hasAnyLink\<close> of \<open>loadCache\<close>: one of the eleven top-level link properties is truthy.\<close>

definition hasAnyLink :: "'a links_scheme \<Rightarrow> bool" where
  "hasAnyLink fund' =
     (truthy (website fund') \<or> truthy (twitter fund') \<or> truthy (telegram fund')
      \<or> truthy (discord fund') \<or> truthy (medium fund') \<or> truthy (linkedin fund')
      \<or> truthy (github fund') \<or> truthy (youtube fund') \<or> truthy (facebook fund')
      \<or> truthy (instagram fund') \<or> truthy (reddit fund'))"

definition loadCache :: "disk_file \<Rightarrow> (string \<times> fund_record) list" where
  "loadCache outputFile =
     (case outputFile of
        Stored json \<Rightarrow>
          foldl (\<lambda>cache fund'.
                   if \<not> truthy (error (scraped fund')) \<and> hasAnyLink (scraped fund')
                   then map_set (key fund') fund' cache else cache)
            [] (data json)
      | _ \<Rightarrow> [])"

text \<open>
  The merge of the cache with the new results; \<open>savePartialResults\<close> and step 5 of
  \<open>main\<close> hold the same code.  \<open>ensure_url\<close> is \<open>if (!data.url) data.url = ...\<close>; the
  program changes the cached object in place, which gives the same object on every
  later merge.  \<open>lc\<close> is \<open>String.prototype.localeCompare\<close>, whose order depends on the
  host's locale.
\<close>

definition ensure_url :: "string \<Rightarrow> fund_record \<Rightarrow> fund_record" where
  "ensure_url k d =
     (if \<not> truthy (url d) then d\<lparr>url := Some (''https://cryptorank.io/funds/'' @ k)\<rparr> else d)"

definition targetTiers :: "bool \<Rightarrow> int list" where
  "targetTiers t2 = (if t2 then [1, 2] else [1])"

definition compare_funds :: "(string \<Rightarrow> string \<Rightarrow> int) \<Rightarrow> fund_record \<Rightarrow> fund_record \<Rightarrow> int" where
  "compare_funds lc a b = (if tier a \<noteq> tier b then tier a - tier b else lc (name a) (name b))"

definition allResultsMap ::
  "(string \<times> fund_record) list \<Rightarrow> fund_record list \<Rightarrow> (string \<times> fund_record) list" where
  "allResultsMap cache newResults =
     foldl (\<lambda>m result. map_set (key result) result m)
       (foldl (\<lambda>m (k, d). map_set k (ensure_url k d) m) [] cache)
       newResults"

definition allResults ::
  "(string \<Rightarrow> string \<Rightarrow> int) \<Rightarrow> (string \<times> fund_record) list \<Rightarrow> fund_record list \<Rightarrow> bool
   \<Rightarrow> fund_record list" where
  "allResults lc cache newResults t2 =
     array_sort (compare_funds lc)
       (filter (\<lambda>f. tier f \<in> set (targetTiers t2)) (map snd (allResultsMap cache newResults)))"

definition totalSuccess :: "fund_record list \<Rightarrow> nat" where
  "totalSuccess rs = length (filter (\<lambda>f. \<not> truthy (error (scraped f))) rs)"

definition totalFailed :: "fund_record list \<Rightarrow> nat" where
  "totalFailed rs = length (filter (\<lambda>f. truthy (error (scraped f))) rs)"

text \<open>
  The content \<open>savePartialResults\<close> writes; \<open>t_gen\<close> and \<open>t_now\<close> are its two readings of
  the clock.
\<close>

definition savePartialResults ::
  "(string \<Rightarrow> string \<Rightarrow> int) \<Rightarrow> (string \<times> fund_record) list \<Rightarrow> fund_record list \<Rightarrow> bool
   \<Rightarrow> int \<Rightarrow> int \<Rightarrow> int \<Rightarrow> resultset" where
  "savePartialResults lc cache newResults t2 startTime t_gen t_now =
     (let rs = allResults lc cache newResults t2 in
      \<lparr>metadata =
         \<lparr>generatedAt = t_gen, source = ''cryptorank.io'', partial = True,
          durationMs = t_now - startTime, tiers = targetTiers t2, totalFunds = length rs,
          successfulScrapes = totalSuccess rs, failedScrapes = totalFailed rs,
          fromCache = None, newlyScrapped = None\<rparr>,
       data = rs\<rparr>)"

text \<open>
  The Record that \<open>main\<close> builds from a fund and the object \<open>scrapeFund\<close> returned.
  \<open>otherLinks\<close> is the rest of the destructuring, in the object's property order.
\<close>

definition otherLinks :: "scrape_result \<Rightarrow> (string \<times> string option) list" where
  "otherLinks r =
     [(''telegram'', telegram r), (''discord'', discord r), (''medium'', medium r),
      (''linkedin'', linkedin r), (''github'', github r), (''youtube'', youtube r),
      (''facebook'', facebook r), (''instagram'', instagram r), (''reddit'', reddit r)]"

definition otherSocials :: "scrape_result \<Rightarrow> (string \<times> string) list" where
  "otherSocials r = concat (map (\<lambda>(k, v). case v of None \<Rightarrow> [] | Some x \<Rightarrow> [(k, x)]) (otherLinks r))"

definition result_record :: "fund \<Rightarrow> scrape_result \<Rightarrow> int \<Rightarrow> fund_record" where
  "result_record fund' scrapeResult now =
     \<lparr>id_f = id_f fund', key = key fund', name = name fund', tier = tier fund',
      type = type fund',
      url = Some (''https://cryptorank.io/funds/'' @ key fund'),
      scraped = with_error
        (no_links\<lparr>website := or_null (website scrapeResult),
                  twitter := or_null (twitter scrapeResult)\<rparr>)
        (or_null (error scrapeResult)),
      scrapedAt = now,
      other_socials =
        (if otherSocials scrapeResult \<noteq> [] then Some (otherSocials scrapeResult) else None)\<rparr>"

text \<open>
  Everything outside the program that a run of the fund scraper depends on: what every
  entry point meets (\<open>world\<close>, defined with the runs above), the answer of the
  upstream source, the files and the locale's string order.
\<close>

record fund_world = "links world" +
  api :: api_response
  files :: "string \<Rightarrow> disk_file"
  localeCompare :: "string \<Rightarrow> string \<Rightarrow> int"

record fund_progress = "(string, resultset) progress" +
  newResults :: "fund_record list"

text \<open>
  The loop \<open>for (let i = 0; i < fundsToScrape.length; i++)\<close>: \<open>main_step\<close> is its body
  for the fund at index \<open>i\<close>, \<open>total\<close> is the length of \<open>fundsToScrape\<close>, and \<open>main_loop\<close>
  runs the body over what is left of the array from index \<open>i\<close> on.  Iteration \<open>i\<close> reads
  the clock three times (readings \<open>3i+1\<close> to \<open>3i+3\<close>; reading 0 is \<open>startTime\<close>).
\<close>

definition main_step ::
  "fund_world \<Rightarrow> bool \<Rightarrow> (string \<times> fund_record) list \<Rightarrow> nat \<Rightarrow> nat \<Rightarrow> fund \<Rightarrow> fund_progress
   \<Rightarrow> fund_progress" where
  "main_step w t2 cache total' i fund' st =
     (let index = i + 1;
          scrapeResult = fst (scrapeFund (browser w index) (key fund'));
          result = result_record fund' scrapeResult (clock w (3 * i + 1));
          results = newResults st @ [result];
          written = savePartialResults (localeCompare w) cache results t2 (clock w 0)
                      (clock w (3 * i + 2)) (clock w (3 * i + 3))
      in \<lparr>successCount = (if truthy (error scrapeResult) then successCount st
                            else successCount st + 1),
          failCount = (if truthy (error scrapeResult) then failCount st + 1
                       else failCount st),
          log = log st @ [Scrape (key fund'), Save written]
                @ (if int i < int total' - 1 then [Throttle DELAY_BETWEEN_REQUESTS_MS]
                   else []),
          newResults = results\<rparr>)"

fun main_loop ::
  "fund_world \<Rightarrow> bool \<Rightarrow> (string \<times> fund_record) list \<Rightarrow> nat \<Rightarrow> nat \<Rightarrow> fund list
   \<Rightarrow> fund_progress \<Rightarrow> fund_progress" where
  "main_loop w t2 cache total' i [] st = st"
| "main_loop w t2 cache total' i (fund' # rest) st =
     main_loop w t2 cache total' (i + 1) rest (main_step w t2 cache total' i fund' st)"

text \<open>
  Steps 5 to 7 of \<open>main\<close>: the content of the final write, from the cache, the number
  \<open>n\<close> of funds scraped and the state the loop left.
\<close>

definition final_output ::
  "fund_world \<Rightarrow> bool \<Rightarrow> (string \<times> fund_record) list \<Rightarrow> nat \<Rightarrow> fund_progress \<Rightarrow> resultset" where
  "final_output w t2 cache n st =
     (let cachedCount = length cache;
          rs = allResults (localeCompare w) cache (newResults st) t2
      in \<lparr>metadata =
            \<lparr>generatedAt = clock w (3 * n + 2), source = ''cryptorank.io'', partial = False,
             durationMs = clock w (3 * n + 1) - clock w 0, tiers = targetTiers t2,
             totalFunds = length rs, successfulScrapes = totalSuccess rs,
             failedScrapes = totalFailed rs, fromCache = Some cachedCount,
             newlyScrapped = Some (successCount st + failCount st)\<rparr>,
          data = rs\<rparr>)"

definition main :: "fund_world \<Rightarrow> (string, resultset) run" where
  "main w =
     (let t2 = includeTier2 (parseArgs (argv w));
          outputFile = (if t2 then OUTPUT_FILE_TIER1_2 else OUTPUT_FILE_TIER1)
      in case (if t2 then fetchTier1And2Funds (api w) else fetchTier1Funds (api w)) of
           Inl msg \<Rightarrow> \<lparr>events = [], ending = Exit1 msg\<rparr>
         | Inr funds \<Rightarrow>
             (let cache = loadCache (files w outputFile);
                  fundsToScrape = filter (\<lambda>f. \<not> map_has cache (key f)) funds
              in if length fundsToScrape = 0 then \<lparr>events = [], ending = FromCache\<rparr>
                 else (case connect_error w of
                         Some msg \<Rightarrow> \<lparr>events = [], ending = Exit1 msg\<rparr>
                       | None \<Rightarrow>
                           (let n = length fundsToScrape;
                                st = main_loop w t2 cache n 0 fundsToScrape
                                       \<lparr>successCount = 0, failCount = 0, log = [Connect],
                                        newResults = []\<rparr>;
                                output = final_output w t2 cache n st;
                                evs = log st @ [Disconnect, Save output]
                            in case final_write_error w of
                                 Some msg \<Rightarrow> \<lparr>events = evs, ending = Exit1 msg\<rparr>
                               | None \<Rightarrow> \<lparr>events = evs, ending = Completed output\<rparr>))))"

text \<open>
  The output file after a run that did not end by \<open>process.exit(1)\<close>: the final write
  replaces the whole content, and the early return leaves the file as it was.
\<close>

definition persisted :: "fund_world \<Rightarrow> (string, resultset) run \<Rightarrow> disk_file option" where
  "persisted w r =
     (case ending r of
        Completed output \<Rightarrow> Some (Stored output)
      | FromCache \<Rightarrow>
          Some (files w (if includeTier2 (parseArgs (argv w)) then OUTPUT_FILE_TIER1_2
                         else OUTPUT_FILE_TIER1))
      | Exit1 msg \<Rightarrow> None)"

subsection \<open>The funding rounds scraper's entry point\<close>

definition DEFAULT_LIMIT :: nat where
  "DEFAULT_LIMIT = 200"

definition ITEMS_PER_PAGE :: nat where
  "ITEMS_PER_PAGE = 20"

definition DELAY_BETWEEN_PAGES_MS :: nat where
  "DELAY_BETWEEN_PAGES_MS = 2000"

text \<open>
  The loop of \<open>parseArgs\<close> over the arguments, in the funding rounds and the project
  details entry points: \<open>--limit\<close> or \<open>-l\<close> followed by a non-empty argument takes it
  as the limit when \<open>parseInt\<close> reads a positive number from it, and skips it.
  \<open>parse_int\<close> is \<open>parseInt(_, 10)\<close>, with \<open>None\<close> for \<open>NaN\<close>.
\<close>

fun parseLimit :: "(string \<Rightarrow> int option) \<Rightarrow> nat option \<Rightarrow> string list \<Rightarrow> nat option" where
  "parseLimit parse_int limit' [] = limit'"
| "parseLimit parse_int limit' [a] = limit'"
| "parseLimit parse_int limit' (a # b # rest) =
     (if (a = ''--limit'' \<or> a = ''-l'') \<and> b \<noteq> [] then
        parseLimit parse_int
          (case parse_int b of
             None \<Rightarrow> limit'
           | Some parsed \<Rightarrow> if parsed > 0 then Some (nat parsed) else limit')
          rest
      else parseLimit parse_int limit' (b # rest))"

record rounds_metadata = stamp +
  totalRounds :: nat
  limit_used :: nat
  pagesScraped :: nat

type_synonym 'row rounds_file = "(rounds_metadata, 'row) saved"

definition saveResults ::
  "'row list \<Rightarrow> nat \<Rightarrow> nat \<Rightarrow> int \<Rightarrow> bool \<Rightarrow> int \<Rightarrow> int \<Rightarrow> 'row rounds_file" where
  "saveResults rows limit' pages startTime part t_gen t_now =
     \<lparr>metadata =
        \<lparr>generatedAt = t_gen, source = ''cryptorank.io/funding-rounds'', partial = part,
         durationMs = t_now - startTime, totalRounds = length rows, limit_used = limit',
         pagesScraped = pages\<rparr>,
      data = rows\<rparr>"

record ('raw, 'row) rounds_world = "'raw list world" +
  parse_int :: "string \<Rightarrow> int option"
  show_nat :: "nat \<Rightarrow> string"
  post :: "'raw \<Rightarrow> 'row"

record 'row rounds_progress = "(nat, 'row rounds_file) progress" +
  allData :: "'row list"
  pagesScraped_so_far :: nat

text \<open>
  The loop \<open>for (let pageNumber = 1; pageNumber <= pagesNeeded; pageNumber++)\<close>, with
  \<open>rounds_step\<close> its body.  The partial save of page \<open>p\<close> takes the clock readings
  \<open>2p - 1\<close> and \<open>2p\<close>.
\<close>

definition rounds_step ::
  "('raw, 'row) rounds_world \<Rightarrow> nat \<Rightarrow> nat \<Rightarrow> nat \<Rightarrow> 'row rounds_progress
   \<Rightarrow> 'row rounds_progress" where
  "rounds_step w limit' pagesNeeded pageNumber st =
     (let result = fst (scrapePage (show_nat w) (post w) (browser w pageNumber) pageNumber);
          rows = (if truthy (page_error result) then allData st
                  else allData st @ page_data result);
          pages = (if truthy (page_error result) then pagesScraped_so_far st
                   else pagesScraped_so_far st + 1);
          written = saveResults rows limit' pages (clock w 0) True
                      (clock w (2 * pageNumber - 1)) (clock w (2 * pageNumber))
      in \<lparr>successCount = (if truthy (page_error result) then successCount st
                            else successCount st + 1),
          failCount = (if truthy (page_error result) then failCount st + 1
                       else failCount st),
          log = log st @ [Scrape pageNumber, Save written]
                @ (if pageNumber < pagesNeeded then [Throttle DELAY_BETWEEN_PAGES_MS]
                   else []),
          allData = rows, pagesScraped_so_far = pages\<rparr>)"

function rounds_loop ::
  "('raw, 'row) rounds_world \<Rightarrow> nat \<Rightarrow> nat \<Rightarrow> nat \<Rightarrow> 'row rounds_progress
   \<Rightarrow> 'row rounds_progress" where
  "rounds_loop w limit' pagesNeeded pageNumber st =
     (if pageNumber \<le> pagesNeeded then
        rounds_loop w limit' pagesNeeded (pageNumber + 1)
          (rounds_step w limit' pagesNeeded pageNumber st)
      else st)"
  by pat_completeness auto
termination
  by (relation
      "measure (\<lambda>(w, limit', pagesNeeded, pageNumber, st). Suc pagesNeeded - pageNumber)")
    auto

definition rounds_main :: "('raw, 'row) rounds_world \<Rightarrow> (nat, 'row rounds_file) run" where
  "rounds_main w =
     (let limit' = (case parseLimit (parse_int w) (Some DEFAULT_LIMIT) (argv w) of
                   Some l \<Rightarrow> l | None \<Rightarrow> DEFAULT_LIMIT);
          pagesNeeded = (limit' + ITEMS_PER_PAGE - 1) div ITEMS_PER_PAGE
      in case connect_error w of
           Some msg \<Rightarrow> \<lparr>events = [], ending = Exit1 msg\<rparr>
         | None \<Rightarrow>
             (let st = rounds_loop w limit' pagesNeeded 1
                         \<lparr>successCount = 0, failCount = 0, log = [Connect],
                          allData = [], pagesScraped_so_far = 0\<rparr>;
                  output = saveResults (allData st) limit' (pagesScraped_so_far st) (clock w 0)
                             False (clock w (2 * pagesNeeded + 2)) (clock w (2 * pagesNeeded + 3));
                  evs = log st @ [Disconnect, Save output]
              in case final_write_error w of
                   Some msg \<Rightarrow> \<lparr>events = evs, ending = Exit1 msg\<rparr>
                 | None \<Rightarrow> \<lparr>events = evs, ending = Completed output\<rparr>))"

subsection \<open>The project details scraper's entry point\<close>

definition DELAY_BETWEEN_PROJECTS_MS :: nat where
  "DELAY_BETWEEN_PROJECTS_MS = 2000"

record details_metadata = stamp +
  totalProjects :: nat
  successful :: nat
  failed :: nat

text \<open>A funding round of the input with the two properties the enrichment adds.\<close>

record ('r, 'd) enriched =
  round_of :: 'r
  details_of :: "'d option"
  detailsError :: "string option"

type_synonym ('r, 'd) details_file = "(details_metadata, ('r, 'd) enriched) saved"

text \<open>
  \<open>saveResults\<close> of the project details scraper.  \<open>projectDetails\<close> is a plain object used
  as a map from project keys to results, kept here as an association list;
  \<open>projectDetails[round.projectKey]\<close> reads the property whose name is the key as a
  string, so \<open>undefined\<close> for a round without a key and \<open>null\<close> for a null key.  For a
  name that every object inherits, such as \<open>constructor\<close>, and that was not set, the code
  finds a value without \<open>details\<close> and \<open>error\<close> and adds null twice, as for a name that
  is not there.  The one name that is no ordinary property, \<open>__proto__\<close>, is taken not to
  occur as a project key.
\<close>

definition saveDetails ::
  "'a project_scheme list \<Rightarrow> (string \<times> 'd project_result) list \<Rightarrow> nat \<Rightarrow> nat \<Rightarrow> nat \<Rightarrow> int
   \<Rightarrow> bool \<Rightarrow> int \<Rightarrow> int \<Rightarrow> ('a project_scheme, 'd) details_file" where
  "saveDetails rounds projectDetails total' ok bad startTime part t_gen t_now =
     \<lparr>metadata =
        \<lparr>generatedAt = t_gen, source = ''cryptorank.io/ico'', partial = part,
         durationMs = t_now - startTime, totalProjects = total', successful = ok,
         failed = bad\<rparr>,
      data = map (\<lambda>r. case map_of projectDetails (js_string (projectKey r)) of
                         None \<Rightarrow> \<lparr>round_of = r, details_of = None, detailsError = None\<rparr>
                       | Some d \<Rightarrow> \<lparr>round_of = r, details_of = details d,
                                    detailsError = or_null (details_error d)\<rparr>)
               rounds\<rparr>"

text \<open>
  \<open>input\<close> is what reading and parsing \<open>funding-rounds.json\<close> gives: an error message,
  or the rounds of its \<open>data\<close> array.
\<close>

record ('a, 'd) details_world = "'d world" +
  parse_int_d :: "string \<Rightarrow> int option"
  input :: "string + 'a project_scheme list"

record ('a, 'd) details_progress =
  "(string, ('a project_scheme, 'd) details_file) progress" +
  projectDetails :: "(string \<times> 'd project_result) list"

text \<open>
  The loop \<open>for (let i = 0; i < projects.length; i++)\<close>, as in the fund scraper, with
  \<open>details_step\<close> its body; the partial save of iteration \<open>i\<close> takes the clock readings
  \<open>2i + 1\<close> and \<open>2i + 2\<close>.
\<close>

definition details_step ::
  "('a, 'd) details_world \<Rightarrow> 'a project_scheme list \<Rightarrow> nat \<Rightarrow> nat \<Rightarrow> project
   \<Rightarrow> ('a, 'd) details_progress \<Rightarrow> ('a, 'd) details_progress" where
  "details_step w rounds total' i project st =
     (let result = fst (scrapeProject (browser w (i + 1)) (js_string (projectKey project)));
          ok = (if truthy (details_error result) then successCount st else successCount st + 1);
          bad = (if truthy (details_error result) then failCount st + 1 else failCount st);
          pd = map_set (js_string (projectKey project)) result (projectDetails st);
          written = saveDetails rounds pd total' ok bad (clock w 0) True
                      (clock w (2 * i + 1)) (clock w (2 * i + 2))
      in \<lparr>successCount = ok, failCount = bad,
          log = log st @ [Scrape (js_string (projectKey project)), Save written]
                @ (if int i < int total' - 1 then [Throttle DELAY_BETWEEN_PROJECTS_MS]
                   else []),
          projectDetails = pd\<rparr>)"

fun details_loop ::
  "('a, 'd) details_world \<Rightarrow> 'a project_scheme list \<Rightarrow> nat \<Rightarrow> nat \<Rightarrow> project list
   \<Rightarrow> ('a, 'd) details_progress \<Rightarrow> ('a, 'd) details_progress" where
  "details_loop w rounds total' i [] st = st"
| "details_loop w rounds total' i (project # rest) st =
     details_loop w rounds total' (i + 1) rest (details_step w rounds total' i project st)"

definition details_main ::
  "('a, 'd) details_world \<Rightarrow> (string, ('a project_scheme, 'd) details_file) run" where
  "details_main w =
     (case input w of
        Inl msg \<Rightarrow> \<lparr>events = [], ending = Exit1 msg\<rparr>
      | Inr rounds \<Rightarrow>
          (let limit' = parseLimit (parse_int_d w) None (argv w);
               found = extractUniqueProjects rounds;
               projects = (case limit' of
                             None \<Rightarrow> found
                           | Some l \<Rightarrow> if l \<noteq> 0 \<and> l < length found then take l found else found)
           in case connect_error w of
                Some msg \<Rightarrow> \<lparr>events = [], ending = Exit1 msg\<rparr>
              | None \<Rightarrow>
                  (let n = length projects;
                       st = details_loop w rounds n 0 projects
                              \<lparr>successCount = 0, failCount = 0, log = [Connect],
                               projectDetails = []\<rparr>;
                       output = saveDetails rounds (projectDetails st) n (successCount st)
                                  (failCount st) (clock w 0) False
                                  (clock w (2 * n + 2)) (clock w (2 * n + 3));
                       evs = log st @ [Disconnect, Save output]
                   in case final_write_error w of
                        Some msg \<Rightarrow> \<lparr>events = evs, ending = Exit1 msg\<rparr>
                      | None \<Rightarrow> \<lparr>events = evs, ending = Completed output\<rparr>)))"

section \<open>Notions used in the statements\<close>

text \<open>The message of the error an attempt throws (empty when it throws none).\<close>

definition raised :: "'p outcome \<Rightarrow> string" where
  "raised out = (case out of Raises msg \<Rightarrow> msg | Extracted p \<Rightarrow> [])"

definition is_Raises :: "'p outcome \<Rightarrow> bool" where
  "is_Raises out = (case out of Raises msg \<Rightarrow> True | Extracted p \<Rightarrow> False)"

text \<open>What an attempt that throws leaves in the log: itself, and what the \<open>catch\<close> block adds.\<close>

definition failed_attempt :: "nat \<Rightarrow> nat \<Rightarrow> string \<Rightarrow> attempt_event list" where
  "failed_attempt maxRetries attempt msg = Attempt attempt # catch_events maxRetries attempt msg"

text \<open>Links with a Twitter account and nothing else, for the examples.\<close>

definition twitter_only :: links where
  "twitter_only = no_links\<lparr>twitter := Some ''https://x.com/a''\<rparr>"

text \<open>A fund of the first tier, for the examples.\<close>

definition fund_a :: fund where
  "fund_a = \<lparr>id_f = 1, key = ''a'', name = ''A'', tier = 1, type = ''Venture''\<rparr>"

text \<open>
  For a run of the fund scraper: whether the second tier is asked for, the cache it
  loads, the targets submitted to it (the funds the upstream source returns for the
  tiers asked for; none when the source fails), those of them it has to scrape, and the
  state its loop ends in.
\<close>

definition tier2 :: "fund_world \<Rightarrow> bool" where
  "tier2 w = includeTier2 (parseArgs (argv w))"

definition cache_of :: "fund_world \<Rightarrow> (string \<times> fund_record) list" where
  "cache_of w =
     loadCache (files w (if tier2 w then OUTPUT_FILE_TIER1_2 else OUTPUT_FILE_TIER1))"

definition submitted :: "fund_world \<Rightarrow> fund list" where
  "submitted w =
     (case fetchFundsByTiers (targetTiers (tier2 w)) (api w) of
        Inl msg \<Rightarrow> []
      | Inr funds \<Rightarrow> funds)"

definition to_scrape :: "fund_world \<Rightarrow> fund list" where
  "to_scrape w = filter (\<lambda>f. \<not> map_has (cache_of w) (key f)) (submitted w)"

definition scraped_state :: "fund_world \<Rightarrow> fund_progress" where
  "scraped_state w =
     main_loop w (tier2 w) (cache_of w) (length (to_scrape w)) 0 (to_scrape w)
       \<lparr>successCount = 0, failCount = 0, log = [Connect], newResults = []\<rparr>"

text \<open>
  The units of work of a run: the targets its loop goes through, in order.  There is
  none when the run ends before the loop.
\<close>

definition fund_units :: "fund_world \<Rightarrow> string list" where
  "fund_units w = (if connect_error w = None then map key (to_scrape w) else [])"

definition rounds_units :: "('raw, 'row) rounds_world \<Rightarrow> nat list" where
  "rounds_units w =
     (let limit' = (case parseLimit (parse_int w) (Some DEFAULT_LIMIT) (argv w) of
                      Some l \<Rightarrow> l | None \<Rightarrow> DEFAULT_LIMIT)
      in case connect_error w of
           Some msg \<Rightarrow> []
         | None \<Rightarrow> [1..<Suc ((limit' + ITEMS_PER_PAGE - 1) div ITEMS_PER_PAGE)])"

definition details_units :: "('a, 'd) details_world \<Rightarrow> string list" where
  "details_units w =
     (case input w of
        Inl msg \<Rightarrow> []
      | Inr rounds \<Rightarrow>
          (case connect_error w of
             Some msg \<Rightarrow> []
           | None \<Rightarrow>
               map (\<lambda>p. js_string (projectKey p))
                 (case parseLimit (parse_int_d w) None (argv w) of
                    None \<Rightarrow> extractUniqueProjects rounds
                  | Some l \<Rightarrow>
                      if l \<noteq> 0 \<and> l < length (extractUniqueProjects rounds)
                      then take l (extractUniqueProjects rounds)
                      else extractUniqueProjects rounds)))"

text \<open>Worlds for the examples: two funds of which the second never loads, and 45 rounds.\<close>

definition fund_b :: fund where
  "fund_b = \<lparr>id_f = 2, key = ''b'', name = ''B'', tier = 1, type = ''Venture''\<rparr>"

definition two_funds :: fund_world where
  "two_funds =
     \<lparr>argv = [], connect_error = None,
      browser = (\<lambda>i u n. if u = ''https://cryptorank.io/funds/a''
                          then Extracted (no_links\<lparr>website := Some ''https://a.io''\<rparr>)
                          else Raises ''timeout''),
      clock = (\<lambda>n. int n), final_write_error = None,
      api = FundsData [fund_a, fund_b], files = (\<lambda>p. Absent), localeCompare = (\<lambda>a b. 0)\<rparr>"

definition three_pages :: "(nat, nat) rounds_world" where
  "three_pages =
     \<lparr>argv = [''-l'', ''45''], connect_error = None, browser = (\<lambda>i u n. Extracted [i, i]),
      clock = (\<lambda>n. int n), final_write_error = None,
      parse_int = (\<lambda>s. Some 45), show_nat = (\<lambda>n. []), post = (\<lambda>r. r)\<rparr>"

definition two_projects :: "(unit, nat) details_world" where
  "two_projects =
     \<lparr>argv = [], connect_error = None, browser = (\<lambda>i u n. Extracted i),
      clock = (\<lambda>n. int n), final_write_error = None,
      parse_int_d = (\<lambda>s. None),
      input = Inr [\<lparr>projectKey = Str ''x'', projectName = Null, projectUrl = Null\<rparr>,
                   \<lparr>projectKey = Null, projectName = Null, projectUrl = Null\<rparr>,
                   \<lparr>projectKey = Str ''y'', projectName = Null, projectUrl = Null\<rparr>]\<rparr>"

text \<open>
  A \<open>Map\<close> of Records that is keyed as the program keys it: no key twice, and every
  Record under its own \<open>key\<close>.
\<close>

definition keyed :: "(string \<times> fund_record) list \<Rightarrow> bool" where
  "keyed m = (distinct (map fst m) \<and> list_all (\<lambda>(k, r). key r = k) m)"

text \<open>What \<open>loadCache\<close> asks of a Record to take it into the cache.\<close>

definition cacheable :: "fund_record \<Rightarrow> bool" where
  "cacheable r = (\<not> truthy (error (scraped r)) \<and> hasAnyLink (scraped r))"

text \<open>
  Records and a stored file for the examples: the Record of fund \<open>a\<close> with a website, as
  a first run leaves it, and a new Record of the same fund.
\<close>

definition cached_a :: fund_record where
  "cached_a =
     result_record fund_a (with_error (no_links\<lparr>website := Some ''https://a.io''\<rparr>) None) 1"

definition file_with_a :: disk_file where
  "file_with_a =
     Stored \<lparr>metadata =
               \<lparr>generatedAt = 5, source = ''cryptorank.io'', partial = False, durationMs = 4,
                tiers = [1], totalFunds = 1, successfulScrapes = 1, failedScrapes = 0,
                fromCache = Some 0, newlyScrapped = Some 1\<rparr>,
             data = [cached_a]\<rparr>"


text \<open>The Record the loop builds in iteration \<open>i\<close> for fund \<open>f\<close>.\<close>

definition new_record :: "fund_world \<Rightarrow> nat \<Rightarrow> fund \<Rightarrow> fund_record" where
  "new_record w i f =
     result_record f (fst (scrapeFund (browser w (i + 1)) (key f))) (clock w (3 * i + 1))"

text \<open>
  The Records of the output file after a run (none when the run ended by
  \<open>process.exit(1)\<close> or the file holds no ResultSet), and the world a second run meets:
  the same, with the output file as the first run left it.
\<close>

definition final_records :: "fund_world \<Rightarrow> fund_record list" where
  "final_records w =
     (case persisted w (main w) of
        Some (Stored rs) \<Rightarrow> data rs
      | _ \<Rightarrow> [])"

definition rerun :: "fund_world \<Rightarrow> fund_world" where
  "rerun w =
     (case persisted w (main w) of
        Some f \<Rightarrow>
          w\<lparr>files := (files w)((if tier2 w then OUTPUT_FILE_TIER1_2 else OUTPUT_FILE_TIER1) := f)\<rparr>
      | None \<Rightarrow> w)"

text \<open>
  More for the examples: links with a LinkedIn page and nothing else, a world whose
  only fund has just that, the Record the fund scraper stores for it, and a world that
  starts from the stored file of fund \<open>a\<close> while the source lists fund \<open>b\<close> only.
\<close>

definition linkedin_only :: links where
  "linkedin_only = no_links\<lparr>linkedin := Some ''https://linkedin.com/a''\<rparr>"

definition linkedin_world :: fund_world where
  "linkedin_world =
     \<lparr>argv = [], connect_error = None, browser = (\<lambda>i u n. Extracted linkedin_only),
      clock = (\<lambda>n. int n), final_write_error = None,
      api = FundsData [fund_a], files = (\<lambda>p. Absent), localeCompare = (\<lambda>a b. 0)\<rparr>"

definition linkedin_record :: fund_record where
  "linkedin_record = result_record fund_a (with_error linkedin_only None) 1"

definition b_after_a :: fund_world where
  "b_after_a =
     \<lparr>argv = [], connect_error = None, browser = (\<lambda>i u n. Extracted twitter_only),
      clock = (\<lambda>n. int n), final_write_error = None,
      api = FundsData [fund_b], files = (\<lambda>p. file_with_a), localeCompare = (\<lambda>a b. 0)\<rparr>"

text \<open>
  For a run of the funding rounds scraper: the limit it works with, the number of pages
  it asks for, what \<open>scrapePage\<close> returns for page \<open>p\<close>, and the pages that come back
  without an error.
\<close>

definition rounds_limit :: "('raw, 'row) rounds_world \<Rightarrow> nat" where
  "rounds_limit w =
     (case parseLimit (parse_int w) (Some DEFAULT_LIMIT) (argv w) of
        Some l \<Rightarrow> l | None \<Rightarrow> DEFAULT_LIMIT)"

definition pages_needed :: "('raw, 'row) rounds_world \<Rightarrow> nat" where
  "pages_needed w = (rounds_limit w + ITEMS_PER_PAGE - 1) div ITEMS_PER_PAGE"

definition page_result :: "('raw, 'row) rounds_world \<Rightarrow> nat \<Rightarrow> 'row page_result" where
  "page_result w p = fst (scrapePage (show_nat w) (post w) (browser w p) p)"

definition pages_ok :: "('raw, 'row) rounds_world \<Rightarrow> nat list" where
  "pages_ok w =
     filter (\<lambda>p. \<not> truthy (page_error (page_result w p))) [1..<Suc (pages_needed w)]"

text \<open>The output file of a run of the fund scraper.\<close>

definition output_file :: "fund_world \<Rightarrow> string" where
  "output_file w = (if tier2 w then OUTPUT_FILE_TIER1_2 else OUTPUT_FILE_TIER1)"

text \<open>
  A world for the examples in which the source lists fund \<open>a\<close> and the output file holds
  its Record already.
\<close>

definition a_cached :: fund_world where
  "a_cached =
     \<lparr>argv = [], connect_error = None, browser = (\<lambda>i u n. Extracted twitter_only),
      clock = (\<lambda>n. int n), final_write_error = None,
      api = FundsData [fund_a], files = (\<lambda>p. file_with_a), localeCompare = (\<lambda>a b. 0)\<rparr>"

section \<open>Properties of \<open>extractUniqueProjects\<close>\<close>

lemma extractUniqueProjects_loop_acc:
  "extractUniqueProjects_loop seen acc rs = acc @ extractUniqueProjects_loop seen [] rs"
proof (induction rs arbitrary: seen acc)
  case Nil
  show ?case by simp
next
  case (Cons r rs)
  show ?case
    using Cons.IH [of "insert (projectKey r) seen" "acc @ [project_of r]"]
      Cons.IH [of "insert (projectKey r) seen" "[project_of r]"]
      Cons.IH [of seen acc]
    by simp
qed

lemma remdups_snoc: "remdups (ys @ [k]) = remdups (filter (\<lambda>y. y \<noteq> k) ys) @ [k]"
  by (induction ys) auto

lemma first_occurrences_Cons:
  "rev (remdups (rev (k # xs))) = k # rev (remdups (rev (filter (\<lambda>y. y \<noteq> k) xs)))"
  by (simp add: remdups_snoc rev_filter)

lemma extractUniqueProjects_loop_keys:
  "map projectKey (extractUniqueProjects_loop seen [] rs) =
   rev (remdups (rev (filter (\<lambda>k. truthy_property k \<and> k \<notin> seen) (map projectKey rs))))"
proof (induction rs arbitrary: seen)
  case Nil
  show ?case by simp
next
  case (Cons r rs)
  show ?case
  proof (cases "truthy_property (projectKey r) \<and> projectKey r \<notin> seen")
    case True
    then show ?thesis
      using Cons.IH [of "insert (projectKey r) seen"]
        extractUniqueProjects_loop_acc [of "insert (projectKey r) seen" "[project_of r]" rs]
      by (simp add: first_occurrences_Cons project_of_def conj_ac
          del: rev.simps remdups.simps)
  next
    case False
    then show ?thesis using Cons.IH [of seen] by auto
  qed
qed

lemma extractUniqueProjects_loop_first:
  "p \<in> set (extractUniqueProjects_loop seen [] rs) \<Longrightarrow>
   \<exists>r. find (\<lambda>r. projectKey r = projectKey p) rs = Some r \<and> p = project_of r"
proof (induction rs arbitrary: seen)
  case Nil
  then show ?case by simp
next
  case (Cons r rs)
  show ?case
  proof (cases "truthy_property (projectKey r) \<and> projectKey r \<notin> seen")
    case True
    then have "p \<in> set (project_of r
        # extractUniqueProjects_loop (insert (projectKey r) seen) [] rs)"
      using Cons.prems
        extractUniqueProjects_loop_acc [of "insert (projectKey r) seen" "[project_of r]" rs]
      by simp
    then consider "p = project_of r"
      | "p \<in> set (extractUniqueProjects_loop (insert (projectKey r) seen) [] rs)"
      by auto
    then show ?thesis
    proof cases
      case 1
      then show ?thesis by (simp add: project_of_def)
    next
      case 2
      then have "projectKey p
          \<in> set (map projectKey (extractUniqueProjects_loop (insert (projectKey r) seen) [] rs))"
        by simp
      then have "projectKey p \<noteq> projectKey r"
        unfolding extractUniqueProjects_loop_keys by auto
      then show ?thesis using Cons.IH [OF 2] by auto
    qed
  next
    case False
    then have in_rest: "p \<in> set (extractUniqueProjects_loop seen [] rs)"
      using Cons.prems by auto
    then have "projectKey p \<in> set (map projectKey (extractUniqueProjects_loop seen [] rs))"
      by simp
    then have "truthy_property (projectKey p) \<and> projectKey p \<notin> seen"
      unfolding extractUniqueProjects_loop_keys by auto
    then have "projectKey p \<noteq> projectKey r" using False by auto
    then show ?thesis using Cons.IH [OF in_rest] by auto
  qed
qed

text \<open>
  C10.  For every list of funding rounds, \<open>extractUniqueProjects\<close> returns one entry per
  distinct truthy \<open>projectKey\<close>: the keys of the result are the truthy keys of the input
  in the order of their first occurrence (so they are distinct, and they are exactly
  the truthy keys that occur), and every entry has the \<open>projectKey\<close>, the \<open>projectName\<close>
  and the \<open>projectUrl\<close> of the first round of the input that has its key.  Rounds whose
  key is missing, null or empty give no entry.
\<close>

theorem extractUniqueProjects_first_occurrences:
  "map projectKey (extractUniqueProjects rs) =
     rev (remdups (rev (filter truthy_property (map projectKey rs))))
   \<and> distinct (map projectKey (extractUniqueProjects rs))
   \<and> set (map projectKey (extractUniqueProjects rs))
       = {k \<in> projectKey ` set rs. truthy_property k}
   \<and> (\<forall>p \<in> set (extractUniqueProjects rs).
        \<exists>r. find (\<lambda>r. projectKey r = projectKey p) rs = Some r
            \<and> projectKey p = projectKey r \<and> projectName p = projectName r
            \<and> projectUrl p = projectUrl r)"
proof -
  have keys: "map projectKey (extractUniqueProjects rs) =
     rev (remdups (rev (filter truthy_property (map projectKey rs))))"
    unfolding extractUniqueProjects_def extractUniqueProjects_loop_keys by simp
  have d: "distinct (map projectKey (extractUniqueProjects rs))"
    unfolding keys by simp
  have s: "set (map projectKey (extractUniqueProjects rs))
      = {k \<in> projectKey ` set rs. truthy_property k}"
    unfolding keys by auto
  have f: "\<exists>r. find (\<lambda>r. projectKey r = projectKey p) rs = Some r
            \<and> projectKey p = projectKey r \<and> projectName p = projectName r
            \<and> projectUrl p = projectUrl r"
    if "p \<in> set (extractUniqueProjects rs)" for p
  proof -
    from that obtain r where
      r: "find (\<lambda>r. projectKey r = projectKey p) rs = Some r" "p = project_of r"
      unfolding extractUniqueProjects_def using extractUniqueProjects_loop_first by blast
    from r(2) have "projectKey p = projectKey r \<and> projectName p = projectName r
        \<and> projectUrl p = projectUrl r"
      by (simp add: project_of_def)
    with r(1) show ?thesis by blast
  qed
  show ?thesis using keys d s f by blast
qed

theorem extractUniqueProjects_first_occurrences_witness:
  "extractUniqueProjects
     [\<lparr>projectKey = Str ''a'', projectName = Str ''A'',
       projectUrl = Str ''https://cryptorank.io/price/a''\<rparr>,
      \<lparr>projectKey = Null, projectName = Str ''N'', projectUrl = Null\<rparr>,
      \<lparr>projectKey = Str [], projectName = Str ''E'',
       projectUrl = Str ''https://cryptorank.io/price/''\<rparr>,
      \<lparr>projectKey = Undefined, projectName = Str ''U'', projectUrl = Undefined\<rparr>,
      \<lparr>projectKey = Str ''b'', projectName = Null,
       projectUrl = Str ''https://cryptorank.io/price/b''\<rparr>,
      \<lparr>projectKey = Str ''a'', projectName = Str ''A2'',
       projectUrl = Str ''https://cryptorank.io/price/a2''\<rparr>]
   = [\<lparr>projectKey = Str ''a'', projectName = Str ''A'',
       projectUrl = Str ''https://cryptorank.io/price/a''\<rparr>,
      \<lparr>projectKey = Str ''b'', projectName = Null,
       projectUrl = Str ''https://cryptorank.io/price/b''\<rparr>]
   \<and> map projectKey (extractUniqueProjects
        [\<lparr>projectKey = Str ''a'', projectName = Str ''A'',
          projectUrl = Str ''https://cryptorank.io/price/a''\<rparr>,
         \<lparr>projectKey = Null, projectName = Str ''N'', projectUrl = Null\<rparr>,
         \<lparr>projectKey = Str [], projectName = Str ''E'',
          projectUrl = Str ''https://cryptorank.io/price/''\<rparr>,
         \<lparr>projectKey = Undefined, projectName = Str ''U'', projectUrl = Undefined\<rparr>,
         \<lparr>projectKey = Str ''b'', projectName = Null,
          projectUrl = Str ''https://cryptorank.io/price/b''\<rparr>,
         \<lparr>projectKey = Str ''a'', projectName = Str ''A2'',
          projectUrl = Str ''https://cryptorank.io/price/a2''\<rparr>])
     = [Str ''a'', Str ''b'']"
  using extractUniqueProjects_first_occurrences
    [of "[\<lparr>projectKey = Str ''a'', projectName = Str ''A'',
           projectUrl = Str ''https://cryptorank.io/price/a''\<rparr>,
          \<lparr>projectKey = Null, projectName = Str ''N'', projectUrl = Null\<rparr>,
          \<lparr>projectKey = Str [], projectName = Str ''E'',
           projectUrl = Str ''https://cryptorank.io/price/''\<rparr>,
          \<lparr>projectKey = Undefined, projectName = Str ''U'', projectUrl = Undefined\<rparr>,
          \<lparr>projectKey = Str ''b'', projectName = Null,
           projectUrl = Str ''https://cryptorank.io/price/b''\<rparr>,
          \<lparr>projectKey = Str ''a'', projectName = Str ''A2'',
           projectUrl = Str ''https://cryptorank.io/price/a2''\<rparr>]"]
  by (simp add: extractUniqueProjects_def truthy_property_def project_of_def)

section \<open>Properties of \<open>parseRaiseAmount\<close>\<close>

subsection \<open>The match and the leading number\<close>

lemma KMB_not_digit:
  "\<not> isDigitOrDot (CHR ''K'')" "\<not> isDigitOrDot (CHR ''M'')" "\<not> isDigitOrDot (CHR ''B'')"
  by (simp_all add: isDigitOrDot_def isDigit_def)

lemma match_amount_shape:
  assumes "amount_shape c ds suf"
  shows "match_amount c = Some (ds, if suf = [] then None else Some (hd suf))"
proof -
  from assms have c: "c = ds @ suf" and ne: "ds \<noteq> []" and all: "\<forall>x\<in>set ds. isDigitOrDot x"
    and suf: "suf = [] \<or> suf = ''K'' \<or> suf = ''M'' \<or> suf = ''B''"
    by (auto simp: amount_shape_def list_all_iff)
  have tw: "takeWhile isDigitOrDot c = ds"
    using suf all KMB_not_digit unfolding c by (auto simp: takeWhile_tail)
  have dw: "dropWhile isDigitOrDot c = suf"
    using suf all KMB_not_digit unfolding c by (auto simp: dropWhile_append3 dropWhile_append1)
  show ?thesis
    using suf ne by (auto simp: match_amount_def tw dw)
qed

lemma match_amount_Some:
  assumes "match_amount c = Some (ds, m)"
  shows "amount_shape c ds (case m of None \<Rightarrow> [] | Some k \<Rightarrow> [k])"
proof -
  have split: "c = takeWhile isDigitOrDot c @ dropWhile isDigitOrDot c" by simp
  have all: "list_all isDigitOrDot (takeWhile isDigitOrDot c)"
    by (simp add: list_all_iff) (meson set_takeWhileD)
  from assms have ds: "ds = takeWhile isDigitOrDot c" and ne: "ds \<noteq> []"
    by (auto simp: match_amount_def Let_def split: if_splits list.splits)
  from assms have "dropWhile isDigitOrDot c = (case m of None \<Rightarrow> [] | Some k \<Rightarrow> [k])
      \<and> (case m of None \<Rightarrow> True | Some k \<Rightarrow> k = CHR ''K'' \<or> k = CHR ''M'' \<or> k = CHR ''B'')"
    by (auto simp: match_amount_def Let_def split: if_splits list.splits)
  then show ?thesis
    unfolding amount_shape_def using split all ds ne
    by (auto split: option.splits)
qed

lemma match_amount_None:
  "match_amount c = None \<longleftrightarrow> (\<nexists>ds suf. amount_shape c ds suf)"
proof
  assume n: "match_amount c = None"
  show "\<nexists>ds suf. amount_shape c ds suf"
  proof
    assume "\<exists>ds suf. amount_shape c ds suf"
    then obtain ds suf where "amount_shape c ds suf" by blast
    from match_amount_shape [OF this] n show False by simp
  qed
next
  assume n: "\<nexists>ds suf. amount_shape c ds suf"
  show "match_amount c = None"
  proof (cases "match_amount c")
    case None
    then show ?thesis .
  next
    case (Some p)
    obtain ds m where "p = (ds, m)" by (cases p)
    with Some match_amount_Some [of c ds m] n show ?thesis by blast
  qed
qed

lemma parseFloat_None:
  assumes "ds \<noteq> []" "list_all isDigitOrDot ds"
  shows "parseFloat ds = None \<longleftrightarrow> (\<exists>t. ds = CHR ''.'' # t \<and> (t = [] \<or> hd t = CHR ''.''))"
proof (cases ds)
  case Nil
  with assms show ?thesis by simp
next
  case (Cons a t)
  note ds = Cons
  show ?thesis
  proof (cases "isDigit a")
    case True
    then have "a \<noteq> CHR ''.''" by (auto simp: isDigit_def)
    with True show ?thesis by (simp add: parseFloat_def ds Let_def)
  next
    case False
    with assms ds have a: "a = CHR ''.''" by (simp add: isDigitOrDot_def)
    show ?thesis
    proof (cases t)
      case Nil
      with a False show ?thesis by (simp add: parseFloat_def ds Let_def)
    next
      case (Cons b u)
      with assms ds have "isDigit b \<or> b = CHR ''.''" by (simp add: isDigitOrDot_def)
      moreover have "isDigit b \<Longrightarrow> b \<noteq> CHR ''.''" by (auto simp: isDigit_def)
      ultimately show ?thesis using a False Cons
        by (auto simp add: parseFloat_def ds Let_def)
    qed
  qed
qed

subsection \<open>The doubles\<close>

declare bit_length.simps [simp del]

text \<open>
  \<open>to_double\<close> rounds to the nearest double: the result is a multiple of the spacing
  \<open>ulp_of q\<close> by a significand of at most 53 bits (of exactly 53 bits above the subnormal
  range), no multiple of the spacing is nearer to \<open>q\<close>, a tie goes to the even
  significand, a double is left as it is, and from \<open>2\<^sup>1\<^sup>0\<^sup>2\<^sup>4\<close> on the result is \<open>Infinity\<close>.
\<close>

lemma bit_length_bounds:
  assumes "0 < n"
  shows "2 ^ (bit_length n - 1) \<le> n" and "Suc n \<le> 2 ^ bit_length n"
proof -
  have "0 < n \<longrightarrow> 2 ^ (bit_length n - 1) \<le> n \<and> Suc n \<le> 2 ^ bit_length n"
  proof (induction n rule: less_induct)
    case (less n)
    show ?case
    proof (intro impI)
      assume pos: "0 < n"
      show "2 ^ (bit_length n - 1) \<le> n \<and> Suc n \<le> 2 ^ bit_length n"
      proof (cases "n = 1")
        case True
        then show ?thesis by (simp add: bit_length.simps)
      next
        case False
        with pos have h: "0 < n div 2" "n div 2 < n" by simp_all
        from less.IH [OF h(2)] h(1) have
          ih: "2 ^ (bit_length (n div 2) - 1) \<le> n div 2"
            "Suc (n div 2) \<le> 2 ^ bit_length (n div 2)"
          by simp_all
        have bp: "0 < bit_length (n div 2)"
          using h(1) by (subst bit_length.simps) simp
        have b: "bit_length n = Suc (bit_length (n div 2))"
          using pos by (subst bit_length.simps) simp
        have "(2::nat) ^ (bit_length n - 1) = 2 * 2 ^ (bit_length (n div 2) - 1)"
          unfolding b using bp by (simp add: power_Suc [symmetric] del: power_Suc)
        also have "\<dots> \<le> 2 * (n div 2)" using ih(1) by simp
        also have "\<dots> \<le> n" by simp
        finally have lo: "2 ^ (bit_length n - 1) \<le> n" .
        have "Suc n \<le> 2 * Suc (n div 2)" by presburger
        also have "\<dots> \<le> 2 * 2 ^ bit_length (n div 2)" using ih(2) by simp
        finally have hi: "Suc n \<le> 2 ^ bit_length n" unfolding b by simp
        show ?thesis using lo hi by simp
      qed
    qed
  qed
  with assms show "2 ^ (bit_length n - 1) \<le> n" and "Suc n \<le> 2 ^ bit_length n"
    by simp_all
qed

lemma pow2_powi: "pow2 e = 2 powi e"
  by (simp add: pow2_def power_int_def power_one_over inverse_eq_divide)

lemma pow2_pos [simp]: "0 < pow2 e"
  by (simp add: pow2_powi)

lemma pow2_nonzero [simp]: "pow2 e \<noteq> 0"
  by (metis less_irrefl pow2_pos)

lemma pow2_add: "pow2 (a + b) = pow2 a * pow2 b"
  by (simp add: pow2_powi power_int_add)

lemma pow2_nat: "pow2 (int n) = 2 ^ n"
  by (simp add: pow2_def)

lemma pow2_neg_nat: "pow2 (- int n) = 1 / 2 ^ n"
  by (auto simp: pow2_def)

lemma bit_length_pos: "0 < n \<Longrightarrow> 0 < bit_length n"
  by (subst bit_length.simps) simp

lemma exponent_ge_1:
  assumes "1 \<le> q"
  shows "pow2 (exponent q) \<le> q" and "q < pow2 (exponent q + 1)"
proof -
  let ?n = "nat \<lfloor>q\<rfloor>"
  let ?b = "bit_length ?n"
  have n: "0 < ?n" using assms by simp
  have b: "0 < ?b" using n by (rule bit_length_pos)
  have e: "exponent q = int (?b - 1)" "exponent q + 1 = int ?b"
    using assms b by (simp_all add: exponent_def)
  have nq: "of_nat ?n \<le> q"
    using assms by (simp add: of_nat_nat)
  have qn: "q < of_nat ?n + 1"
    using assms by (simp add: of_nat_nat) linarith
  note lo = bit_length_bounds(1) [OF n] and hi = bit_length_bounds(2) [OF n]
  have "(2::rat) ^ (?b - 1) = of_nat (2 ^ (?b - 1))" by simp
  also have "\<dots> \<le> of_nat ?n" using lo by (simp only: of_nat_le_iff)
  also note nq
  finally show "pow2 (exponent q) \<le> q" unfolding e(1) pow2_nat .
  have "of_nat ?n + 1 = (of_nat (Suc ?n) :: rat)" by simp
  also have "\<dots> \<le> of_nat (2 ^ ?b)" using hi by (simp only: of_nat_le_iff)
  also have "\<dots> = 2 ^ ?b" by simp
  finally have "of_nat ?n + 1 \<le> (2::rat) ^ ?b" .
  with qn have "q < 2 ^ ?b" by simp
  then show "q < pow2 (exponent q + 1)" unfolding e(2) pow2_nat .
qed

lemma exponent_lt_1:
  assumes "0 < q" "q < 1"
  shows "pow2 (exponent q) \<le> q" and "q < pow2 (exponent q + 1)"
proof -
  let ?x = "1 / q"
  let ?m = "nat (\<lceil>?x\<rceil> - 1)"
  let ?k = "bit_length ?m"
  have x: "1 < ?x" using assms by simp
  then have c: "2 \<le> \<lceil>?x\<rceil>" by linarith
  then have m: "0 < ?m" by linarith
  have k: "0 < ?k" using m by (rule bit_length_pos)
  have e: "exponent q = - int ?k" "exponent q + 1 = - int (?k - 1)"
    using assms k by (simp_all add: exponent_def)
  note lo = bit_length_bounds(1) [OF m] and hi = bit_length_bounds(2) [OF m]
  have mx: "of_nat ?m < ?x"
  proof -
    have "0 \<le> \<lceil>?x\<rceil> - 1" using c by linarith
    then have "of_nat ?m = (of_int (\<lceil>?x\<rceil> - 1) :: rat)" by (rule of_nat_nat)
    also have "\<dots> < ?x" by linarith
    finally show ?thesis .
  qed
  have xm: "?x \<le> of_nat (Suc ?m)"
  proof -
    have "?x \<le> of_int \<lceil>?x\<rceil>" by simp
    also have "\<dots> = of_int (int (Suc ?m))"
    proof -
      have "int (Suc ?m) = \<lceil>?x\<rceil>" using c by linarith
      then show ?thesis by simp
    qed
    also have "\<dots> = of_nat (Suc ?m)" by (simp only: of_int_of_nat_eq)
    finally show ?thesis .
  qed
  have "?x \<le> of_nat (2 ^ ?k)"
    using xm hi by (meson of_nat_le_iff order_trans)
  then have "1 / q \<le> 2 ^ ?k" by simp
  then have "1 \<le> 2 ^ ?k * q" using assms(1) by (simp add: pos_divide_le_eq)
  then have "1 / 2 ^ ?k \<le> q" by (simp add: pos_divide_le_eq mult.commute)
  then show "pow2 (exponent q) \<le> q" unfolding e(1) pow2_neg_nat .
  have "(of_nat (2 ^ (?k - 1)) :: rat) \<le> of_nat ?m" using lo by (simp only: of_nat_le_iff)
  then have "(of_nat (2 ^ (?k - 1)) :: rat) < 1 / q" using mx by (rule le_less_trans)
  then have "2 ^ (?k - 1) < 1 / q" by simp
  then have "2 ^ (?k - 1) * q < 1" using assms(1) by (simp add: pos_less_divide_eq)
  then have "q < 1 / 2 ^ (?k - 1)" by (simp add: pos_less_divide_eq mult.commute)
  then show "q < pow2 (exponent q + 1)" unfolding e(2) pow2_neg_nat .
qed

lemma exponent_bounds:
  assumes "0 < q"
  shows "pow2 (exponent q) \<le> q" and "q < pow2 (exponent q + 1)"
  using assms exponent_ge_1 [of q] exponent_lt_1 [of q] by (cases "1 \<le> q"; simp)+

lemma round_half_even_cases:
  obtains f d where "x = of_int f + d" "0 \<le> d" "d < 1"
    "round_half_even x =
       (if d < 1 / 2 then f else if 1 / 2 < d then f + 1 else if even f then f else f + 1)"
proof -
  define f where "f = \<lfloor>x\<rfloor>"
  define d where "d = x - of_int f"
  have "x = of_int f + d" by (simp add: d_def)
  moreover have "0 \<le> d" "d < 1" unfolding d_def f_def by linarith+
  moreover have "round_half_even x =
       (if d < 1 / 2 then f else if 1 / 2 < d then f + 1 else if even f then f else f + 1)"
    by (simp add: round_half_even_def Let_def f_def d_def)
  ultimately show ?thesis using that by blast
qed

lemma round_half_even_near: "\<bar>of_int (round_half_even x) - x\<bar> \<le> 1 / 2"
proof -
  obtain f d where "x = of_int f + d" "0 \<le> d" "d < 1"
    "round_half_even x =
       (if d < 1 / 2 then f else if 1 / 2 < d then f + 1 else if even f then f else f + 1)"
    by (rule round_half_even_cases)
  then show ?thesis by (auto simp: abs_if)
qed

lemma round_half_even_tie:
  assumes "\<bar>of_int (round_half_even x) - x\<bar> = 1 / 2"
  shows "even (round_half_even x)"
proof -
  obtain f d where "x = of_int f + d" "0 \<le> d" "d < 1"
    "round_half_even x =
       (if d < 1 / 2 then f else if 1 / 2 < d then f + 1 else if even f then f else f + 1)"
    by (rule round_half_even_cases)
  then show ?thesis using assms by (auto simp: abs_if split: if_splits)
qed

lemma round_half_even_int: "round_half_even (of_int z) = z"
  by (simp add: round_half_even_def Let_def)

lemma round_half_even_nearest: "\<bar>of_int (round_half_even x) - x\<bar> \<le> \<bar>of_int k - x\<bar>"
proof (cases "k = round_half_even x")
  case True
  then show ?thesis by simp
next
  case False
  then have "1 \<le> \<bar>k - round_half_even x\<bar>" by simp
  then have "1 \<le> \<bar>(of_int k :: rat) - of_int (round_half_even x)\<bar>"
    by (metis of_int_1 of_int_abs of_int_diff of_int_le_iff)
  then show ?thesis using round_half_even_near [of x] by linarith
qed


lemma pow2_mono: "a \<le> b \<Longrightarrow> pow2 a \<le> pow2 b"
  by (simp add: pow2_powi power_int_increasing)

lemma pow2_strict_mono: "a < b \<Longrightarrow> pow2 a < pow2 b"
  by (simp add: pow2_powi power_int_strict_increasing)

lemma pow2_less_iff: "pow2 a < pow2 b \<longleftrightarrow> a < b"
  using pow2_mono [of b a] pow2_strict_mono [of a b] by (auto simp: not_le [symmetric])

lemma pow2_le_iff: "pow2 a \<le> pow2 b \<longleftrightarrow> a \<le> b"
  using pow2_mono [of a b] pow2_strict_mono [of b a] by (auto simp: not_less [symmetric])

lemma pow2_diff: "pow2 (a - b) = pow2 a / pow2 b"
  by (simp add: pow2_powi power_int_diff)

lemma pow2_numeral: "pow2 (numeral n) = 2 ^ numeral n"
  by (simp add: pow2_def)

lemma round_half_even_le: "x \<le> of_int b \<Longrightarrow> round_half_even x \<le> b"
proof -
  assume xb: "x \<le> of_int b"
  obtain f d where c: "x = of_int f + d" "0 \<le> d" "d < 1"
    "round_half_even x =
       (if d < 1 / 2 then f else if 1 / 2 < d then f + 1 else if even f then f else f + 1)"
    by (rule round_half_even_cases)
  have fb: "f \<le> b" using xb c(1,2) by linarith
  have "f < b" if "0 < d"
  proof -
    have "(of_int f :: rat) < of_int b" using xb c(1) that by linarith
    then show ?thesis by simp
  qed
  then show ?thesis using fb c(4) by (auto split: if_splits)
qed

lemma round_half_even_ge: "of_int a \<le> x \<Longrightarrow> a \<le> round_half_even x"
proof -
  assume ax: "of_int a \<le> x"
  obtain f d where c: "x = of_int f + d" "0 \<le> d" "d < 1"
    "round_half_even x =
       (if d < 1 / 2 then f else if 1 / 2 < d then f + 1 else if even f then f else f + 1)"
    by (rule round_half_even_cases)
  have "(of_int a :: rat) < of_int (f + 1)" using ax c(1,3) by simp
  then have "a < f + 1" by (simp only: of_int_less_iff)
  then show ?thesis using c(4) by (auto split: if_splits)
qed

lemma ulp_of_pos [simp]: "0 < ulp_of q"
  by (simp add: ulp_of_def)

lemma to_double_unfold:
  "q \<noteq> 0 \<Longrightarrow>
   to_double q =
     (if pow2 1024 \<le> of_int (round_half_even (q / ulp_of q)) * ulp_of q then Infinity
      else Finite (of_int (round_half_even (q / ulp_of q)) * ulp_of q))"
  by (simp add: to_double_def Let_def)

lemma to_double_Finite:
  assumes "0 < q" "to_double q = Finite r"
  shows "r = of_int (round_half_even (q / ulp_of q)) * ulp_of q" and "r < pow2 1024"
  using assms by (auto simp: to_double_unfold split: if_splits)

lemma scaled_distance:
  assumes "0 < (u :: rat)"
  shows "\<bar>of_int k * u - q\<bar> = u * \<bar>of_int k - q / u\<bar>"
proof -
  have "u \<noteq> 0" using assms by auto
  then have "u * (q / u) = q" by simp
  then have "of_int k * u - q = u * (of_int k - q / u)"
    by (simp add: right_diff_distrib mult.commute del: times_divide_eq_right)
  then show ?thesis using assms by (simp add: abs_mult)
qed

lemma to_double_nearest:
  assumes "0 < q" "to_double q = Finite r"
  shows "\<bar>r - q\<bar> \<le> \<bar>of_int k * ulp_of q - q\<bar>"
    and "\<bar>r - q\<bar> \<le> ulp_of q / 2"
    and "\<bar>r - q\<bar> = ulp_of q / 2 \<Longrightarrow> even (round_half_even (q / ulp_of q))"
proof -
  let ?u = "ulp_of q"
  let ?m = "round_half_even (q / ?u)"
  have r: "r = of_int ?m * ?u" using assms by (rule to_double_Finite)
  have d: "\<bar>r - q\<bar> = ?u * \<bar>of_int ?m - q / ?u\<bar>"
    unfolding r by (rule scaled_distance) simp
  have "?u * \<bar>of_int ?m - q / ?u\<bar> \<le> ?u * \<bar>of_int k - q / ?u\<bar>"
    using round_half_even_nearest [of "q / ?u" k] by (simp add: mult_left_mono)
  then show "\<bar>r - q\<bar> \<le> \<bar>of_int k * ?u - q\<bar>"
    unfolding d scaled_distance [OF ulp_of_pos, of k q q, symmetric] .
  have "?u * \<bar>of_int ?m - q / ?u\<bar> \<le> ?u * (1 / 2)"
    using round_half_even_near [of "q / ?u"] by (simp add: mult_left_mono del: times_divide_eq_right)
  then show "\<bar>r - q\<bar> \<le> ?u / 2" unfolding d by simp
  assume "\<bar>r - q\<bar> = ?u / 2"
  then have "?u * \<bar>of_int ?m - q / ?u\<bar> = ?u * (1 / 2)" unfolding d by simp
  then have "\<bar>of_int ?m - q / ?u\<bar> = 1 / 2"
    using ulp_of_pos [of q] by simp
  then show "even ?m" by (rule round_half_even_tie)
qed

lemma to_double_significand:
  assumes "0 < q"
  shows "0 \<le> round_half_even (q / ulp_of q)" and "round_half_even (q / ulp_of q) \<le> 2 ^ 53"
    and "- 1022 \<le> exponent q \<Longrightarrow> 2 ^ 52 \<le> round_half_even (q / ulp_of q)"
proof -
  let ?e = "max (exponent q) (- 1022)"
  have u: "ulp_of q = pow2 (?e - 52)" by (simp add: ulp_of_def)
  have "0 \<le> q / ulp_of q"
    using assms ulp_of_pos [of q] by (intro divide_nonneg_pos) simp_all
  then have "of_int 0 \<le> q / ulp_of q" by simp
  then show "0 \<le> round_half_even (q / ulp_of q)" by (rule round_half_even_ge)
  have "q < pow2 (exponent q + 1)" using assms by (rule exponent_bounds)
  also have "\<dots> \<le> pow2 (?e + 1)" by (rule pow2_mono) simp
  also have "\<dots> = pow2 53 * pow2 (?e - 52)"
  proof -
    have "?e + 1 = 53 + (?e - 52)" by simp
    then show ?thesis by (simp only: pow2_add)
  qed
  finally have "q / ulp_of q < pow2 53"
    unfolding u by (simp add: pos_divide_less_eq)
  then have "q / ulp_of q \<le> of_int (2 ^ 53)" by (simp add: pow2_def)
  then show "round_half_even (q / ulp_of q) \<le> 2 ^ 53" by (rule round_half_even_le)
  assume n: "- 1022 \<le> exponent q"
  then have e: "?e = exponent q" by simp
  have "pow2 52 * pow2 (exponent q - 52) = pow2 (exponent q)"
  proof -
    have "exponent q = 52 + (exponent q - 52)" by simp
    then show ?thesis by (metis pow2_add)
  qed
  also have "\<dots> \<le> q" using assms by (rule exponent_bounds)
  finally have "pow2 52 \<le> q / ulp_of q"
    unfolding u e by (simp add: pos_le_divide_eq)
  then have "of_int (2 ^ 52) \<le> q / ulp_of q" by (simp add: pow2_def)
  then show "2 ^ 52 \<le> round_half_even (q / ulp_of q)" by (rule round_half_even_ge)
qed

lemma to_double_overflow:
  assumes "pow2 1024 \<le> q"
  shows "to_double q = Infinity"
proof -
  have pos: "0 < q" using assms pow2_pos [of 1024] by linarith
  have "pow2 1024 < pow2 (exponent q + 1)"
    using assms exponent_bounds(2) [OF pos] by linarith
  then have e: "1024 \<le> exponent q" unfolding pow2_less_iff by simp
  then have u: "ulp_of q = pow2 (exponent q - 52)" by (simp add: ulp_of_def)
  have "2 ^ 52 \<le> round_half_even (q / ulp_of q)"
    using pos e by (intro to_double_significand(3)) simp_all
  then have "(of_int (2 ^ 52) :: rat) \<le> of_int (round_half_even (q / ulp_of q))"
    by (simp only: of_int_le_iff)
  then have "pow2 52 * ulp_of q \<le> of_int (round_half_even (q / ulp_of q)) * ulp_of q"
    by (simp add: pow2_def)
  moreover have "pow2 52 * ulp_of q = pow2 (exponent q)"
  proof -
    have "exponent q = 52 + (exponent q - 52)" by simp
    then show ?thesis unfolding u by (metis pow2_add)
  qed
  moreover have "pow2 1024 \<le> pow2 (exponent q)" using e by (rule pow2_mono)
  ultimately have "pow2 1024 \<le> of_int (round_half_even (q / ulp_of q)) * ulp_of q"
    by linarith
  then show ?thesis using pos by (simp add: to_double_unfold)
qed


lemma exponent_unique:
  assumes "0 < x" "pow2 a \<le> x" "x < pow2 (a + 1)"
  shows "exponent x = a"
proof -
  have "pow2 (exponent x) < pow2 (a + 1)"
    using exponent_bounds(1) [OF assms(1)] assms(3) by linarith
  then have "exponent x < a + 1" unfolding pow2_less_iff .
  moreover have "pow2 a < pow2 (exponent x + 1)"
    using exponent_bounds(2) [OF assms(1)] assms(2) by linarith
  then have "a < exponent x + 1" unfolding pow2_less_iff .
  ultimately show ?thesis by simp
qed

lemma exponent_below:
  assumes "0 < x" "x < pow2 a"
  shows "exponent x < a"
proof -
  have "pow2 (exponent x) < pow2 a"
    using exponent_bounds(1) [OF assms(1)] assms(2) by linarith
  then show ?thesis unfolding pow2_less_iff .
qed

lemma pow2_52: "pow2 52 * pow2 (a - 52) = pow2 a" "pow2 53 * pow2 (a - 52) = pow2 (a + 1)"
proof -
  have "a = 52 + (a - 52)" by simp
  then show "pow2 52 * pow2 (a - 52) = pow2 a" by (metis pow2_add)
  have "a + 1 = 53 + (a - 52)" by simp
  then show "pow2 53 * pow2 (a - 52) = pow2 (a + 1)" by (metis pow2_add)
qed

lemma to_double_exact:
  assumes "0 < m" "m < 2 ^ 53" "- 1022 \<le> a" "2 ^ 52 \<le> m \<or> a = - 1022"
    "of_int m * pow2 (a - 52) < pow2 1024"
  shows "to_double (of_int m * pow2 (a - 52)) = Finite (of_int m * pow2 (a - 52))"
proof -
  let ?u = "pow2 (a - 52)"
  let ?r = "of_int m * ?u"
  have pos: "0 < ?r" using assms(1) by simp
  have "(of_int m :: rat) < of_int (2 ^ 53)" using assms(2) by (simp only: of_int_less_iff)
  then have "(of_int m :: rat) < pow2 53" by (simp add: pow2_def)
  then have "?r < pow2 53 * ?u" by simp
  then have hi: "?r < pow2 (a + 1)" unfolding pow2_52 .
  have "max (exponent ?r) (- 1022) = a"
  proof (cases "2 ^ 52 \<le> m")
    case True
    then have "(of_int (2 ^ 52) :: rat) \<le> of_int m" by (simp only: of_int_le_iff)
    then have "pow2 52 \<le> (of_int m :: rat)" by (simp add: pow2_def)
    then have "pow2 52 * ?u \<le> ?r" by simp
    then have "pow2 a \<le> ?r" unfolding pow2_52 .
    with pos have "exponent ?r = a" using hi by (rule exponent_unique)
    then show ?thesis using assms(3) by simp
  next
    case False
    with assms(4) have a: "a = - 1022" by simp
    from False have "m < 2 ^ 52" by simp
    then have "(of_int m :: rat) < of_int (2 ^ 52)" by (simp only: of_int_less_iff)
    then have "(of_int m :: rat) < pow2 52" by (simp add: pow2_def)
    then have "?r < pow2 52 * ?u" by simp
    then have "?r < pow2 a" unfolding pow2_52 .
    with pos have "exponent ?r < a" by (rule exponent_below)
    then show ?thesis using a by simp
  qed
  then have u: "ulp_of ?r = ?u" by (simp add: ulp_of_def)
  have "?r / ?u = of_int m" by simp
  then have m: "round_half_even (?r / ulp_of ?r) = m"
    unfolding u by (simp only: round_half_even_int)
  have "?r \<noteq> 0" using assms(1) by simp
  then have "to_double ?r =
      (if pow2 1024 \<le> of_int (round_half_even (?r / ulp_of ?r)) * ulp_of ?r then Infinity
       else Finite (of_int (round_half_even (?r / ulp_of ?r)) * ulp_of ?r))"
    by (rule to_double_unfold)
  also have "\<dots> = Finite ?r"
    using assms(5) by (simp add: u round_half_even_int)
  finally show ?thesis .
qed

lemma to_double_idem:
  assumes "0 \<le> q" "to_double q = Finite r"
  shows "to_double r = Finite r"
proof (cases "q = 0")
  case True
  with assms(2) show ?thesis by (simp add: to_double_def)
next
  case False
  with assms(1) have pos: "0 < q" by simp
  let ?e = "max (exponent q) (- 1022)"
  let ?m = "round_half_even (q / ulp_of q)"
  have u: "ulp_of q = pow2 (?e - 52)" by (simp add: ulp_of_def)
  have r: "r = of_int ?m * pow2 (?e - 52)" and lt: "r < pow2 1024"
    using to_double_Finite [OF pos assms(2)] unfolding u by simp_all
  note sig = to_double_significand [OF pos]
  consider "?m = 0" | "0 < ?m" "?m < 2 ^ 53" | "?m = 2 ^ 53"
    using sig(1,2) by linarith
  then show ?thesis
  proof cases
    case 1
    then show ?thesis unfolding r by (simp add: to_double_def)
  next
    case 2
    have "2 ^ 52 \<le> ?m \<or> ?e = - 1022"
      using sig(3) by (cases "- 1022 \<le> exponent q") simp_all
    then show ?thesis
      unfolding r using 2 lt [unfolded r] by (intro to_double_exact) simp_all
  next
    case 3
    have "r = pow2 53 * pow2 (?e - 52)" unfolding r 3 by (simp add: pow2_def)
    also have "\<dots> = pow2 (?e + 1)" by (rule pow2_52)
    also have "\<dots> = pow2 52 * pow2 ((?e + 1) - 52)" by (rule pow2_52(1) [symmetric])
    finally have r': "r = of_int (2 ^ 52) * pow2 ((?e + 1) - 52)" by (simp add: pow2_def)
    show ?thesis
      unfolding r' using lt [unfolded r'] by (intro to_double_exact) simp_all
  qed
qed

lemma times_one:
  assumes "0 \<le> q" "to_double q = x"
  shows "times_number x 1 = x"
  using assms to_double_idem [of q] by (cases x) (simp_all add: times_number_def)

subsection \<open>Evaluation\<close>

lemma floor_rat_numeral [simp]:
  "\<lfloor>numeral a / numeral b :: rat\<rfloor> = numeral a div numeral b"
  using floor_divide_of_int_eq [of "numeral a" "numeral b", where ?'a = rat] by simp

lemma ceiling_rat_numeral [simp]:
  "\<lceil>numeral a / numeral b :: rat\<rceil> = - (- numeral a div numeral b)"
  using ceiling_divide_eq_div [of "numeral a" "numeral b"] by simp

lemmas number_eval = to_double_def ulp_of_def exponent_def round_half_even_def pow2_def
  bit_length.simps times_number_def Let_def

lemmas amount_eval = parseRaiseAmount_def cleaned_def toUpperCase_def toUpperCase_char_def
  isSpace_def match_amount_def isDigitOrDot_def isDigit_def parseFloat_def digits_val_def

subsection \<open>The cases of \<open>parseRaiseAmount\<close>\<close>

text \<open>What \<open>parseFloat\<close> reads: the digits before the first dot and those right after it.\<close>

lemma dot_not_digit: "\<not> isDigit (CHR ''.'')"
  by (simp add: isDigit_def)

lemma takeWhile_digits:
  assumes "list_all isDigit ds" "rest = [] \<or> hd rest = CHR ''.''"
  shows "takeWhile isDigit (ds @ rest) = ds" and "dropWhile isDigit (ds @ rest) = rest"
proof -
  from assms(1) have all: "\<forall>x\<in>set ds. isDigit x" by (simp add: list_all_iff)
  show "takeWhile isDigit (ds @ rest) = ds"
  proof (cases rest)
    case Nil
    then show ?thesis using all by simp
  next
    case (Cons c t)
    with assms(2) have "\<not> isDigit c" by (simp add: dot_not_digit)
    then show ?thesis using all Cons by (simp add: takeWhile_tail)
  qed
  show "dropWhile isDigit (ds @ rest) = rest"
  proof (cases rest)
    case Nil
    then show ?thesis using all by simp
  next
    case (Cons c t)
    with assms(2) have "\<not> isDigit c" by (simp add: dot_not_digit)
    then show ?thesis using all Cons by (simp add: dropWhile_append3)
  qed
qed

lemma parseFloat_leading:
  assumes "list_all isDigit ip" "list_all isDigit fp" "ip \<noteq> [] \<or> fp \<noteq> []"
    "rest = [] \<or> hd rest = CHR ''.''"
  shows "parseFloat (ip @ CHR ''.'' # fp @ rest) = Some (to_double (decimal ip fp))"
proof -
  have t: "takeWhile isDigit (ip @ CHR ''.'' # fp @ rest) = ip"
    and d: "dropWhile isDigit (ip @ CHR ''.'' # fp @ rest) = CHR ''.'' # fp @ rest"
    using takeWhile_digits [OF assms(1), of "CHR ''.'' # fp @ rest"] by simp_all
  have f: "takeWhile isDigit (fp @ rest) = fp"
    using assms(2,4) by (rule takeWhile_digits)
  show ?thesis
    unfolding parseFloat_def t d using assms(3) by (simp add: f decimal_def)
qed

lemma parseFloat_digits:
  assumes "list_all isDigit ip" "ip \<noteq> []"
  shows "parseFloat ip = Some (to_double (decimal ip []))"
proof -
  have t: "takeWhile isDigit ip = ip" and d: "dropWhile isDigit ip = []"
    using takeWhile_digits [OF assms(1), of "[]"] by simp_all
  show ?thesis
    unfolding parseFloat_def t d using assms(2) by (simp add: decimal_def digits_val_def)
qed

text \<open>What \<open>parseFloat\<close> returns is a double, which a product with 1 leaves as it is.\<close>

lemma parseFloat_times_one:
  assumes "parseFloat s = Some num"
  shows "times_number num 1 = num"
proof -
  from assms obtain ip fp where "num = to_double (decimal ip fp)"
    by (auto simp: parseFloat_def Let_def decimal_def split: if_splits)
  moreover have "0 \<le> decimal ip fp"
    by (simp add: decimal_def)
  ultimately show ?thesis using times_one by blast
qed

text \<open>
  The doubles at work: \<open>4.1\<close> and \<open>1.005\<close> are not doubles, and the products of the
  doubles nearest to them are \<open>4099999.9999999995\<close> and \<open>1004.9999999999999\<close>.
\<close>

lemma parseRaiseAmount_rounds:
  "parseRaiseAmount (Some ''$4.1M'') = Some (Finite (8804682956799999 / 2147483648))"
  "parseRaiseAmount (Some ''1.005K'') = Some (Finite (8840073487319039 / 8796093022208))"
  "parseRaiseAmount (Some ''0.1'') = Some (Finite (3602879701896397 / 36028797018963968))"
  "parseRaiseAmount (Some ''$1.2B'') = Some (Finite 1200000000)"
  by (simp_all add: amount_eval number_eval)

text \<open>
  A literal too large for a double reads as \<open>Infinity\<close>, which every product leaves as it
  is: \<open>1\<close> followed by 309 zeros is such a literal.
\<close>

lemma digits_val_snoc: "digits_val (ds @ [c]) = 10 * digits_val ds + (of_char c - 48)"
  by (simp add: digits_val_def)

lemma digits_val_zeros: "digits_val (ds @ replicate n (CHR ''0'')) = digits_val ds * 10 ^ n"
proof (induction n)
  case 0
  show ?case by simp
next
  case (Suc n)
  have "ds @ replicate (Suc n) (CHR ''0'') = (ds @ replicate n (CHR ''0'')) @ [CHR ''0'']"
    by (simp add: replicate_append_same)
  then show ?case using Suc.IH by (simp only: digits_val_snoc) simp
qed

lemma parseFloat_overflow:
  "parseFloat (CHR ''1'' # replicate 309 (CHR ''0'')) = Some Infinity"
  "times_number Infinity k = Infinity"
proof -
  let ?ip = "CHR ''1'' # replicate 309 (CHR ''0'')"
  have d: "list_all isDigit ?ip"
    by (simp add: isDigit_def list_all_iff)
  have "digits_val ([CHR ''1''] @ replicate 309 (CHR ''0'')) = 10 ^ 309"
    unfolding digits_val_zeros by (simp add: digits_val_def)
  then have v: "decimal ?ip [] = 10 ^ 309"
    by (simp add: decimal_def digits_val_def)
  have "pow2 1024 \<le> decimal ?ip []"
    unfolding v by (simp add: pow2_def)
  then have "to_double (decimal ?ip []) = Infinity"
    by (rule to_double_overflow)
  then show "parseFloat ?ip = Some Infinity"
    using parseFloat_digits [OF d] by simp
  show "times_number Infinity k = Infinity"
    by (simp add: times_number_def)
qed

text \<open>
  C9, as the code has it.  For every string \<open>s\<close>, \<open>parseRaiseAmount\<close> returns null when
  \<open>s\<close> is empty, \<open>-\<close> or \<open>N/A\<close>, and when \<open>s\<close> without \<open>$\<close>, commas and whitespace, in upper
  case, is not digits and dots followed by nothing or by one of K, M, B.  Otherwise,
  with \<open>ds\<close> the digits and dots and \<open>suf\<close> the suffix, it returns the leading number of
  \<open>ds\<close> times 1000 for K, 1000000 for M, 1000000000 for B and 1 for no suffix (the
  number itself); and it returns null when \<open>ds\<close> has no leading number, which is the
  case exactly when \<open>ds\<close> starts with a dot that no digit follows.  The leading number
  is the double nearest to the decimal made of the digits before the first dot and the
  digits right after it, and the product is the double nearest to the exact product.
  \<open>parseAmount\<close> returns the same as \<open>parseRaiseAmount\<close> on every input.
\<close>

theorem parseRaiseAmount_cases:
  "(s = [] \<or> s = ''-'' \<or> s = ''N/A'' \<longrightarrow> parseRaiseAmount (Some s) = None)
   \<and> ((\<nexists>ds suf. amount_shape (cleaned s) ds suf) \<longrightarrow> parseRaiseAmount (Some s) = None)
   \<and> (s \<noteq> [] \<and> s \<noteq> ''-'' \<and> s \<noteq> ''N/A'' \<and> amount_shape (cleaned s) ds suf \<longrightarrow>
        parseRaiseAmount (Some s) =
          map_option (\<lambda>num. times_number num (factor suf)) (parseFloat ds)
        \<and> (parseFloat ds = None \<longleftrightarrow>
             (\<exists>t. ds = CHR ''.'' # t \<and> (t = [] \<or> hd t = CHR ''.''))))
   \<and> (list_all isDigit ip \<and> list_all isDigit fp \<and> (ip \<noteq> [] \<or> fp \<noteq> [])
        \<and> (rest = [] \<or> hd rest = CHR ''.'') \<longrightarrow>
        parseFloat (ip @ CHR ''.'' # fp @ rest) = Some (to_double (decimal ip fp)))
   \<and> (list_all isDigit ip \<and> ip \<noteq> [] \<longrightarrow> parseFloat ip = Some (to_double (decimal ip [])))
   \<and> parseAmount a = parseRaiseAmount a"
proof (intro conjI impI)
  assume "s = [] \<or> s = ''-'' \<or> s = ''N/A''"
  then show "parseRaiseAmount (Some s) = None"
    by (auto simp: parseRaiseAmount_def)
next
  assume "\<nexists>ds suf. amount_shape (cleaned s) ds suf"
  then have "match_amount (cleaned s) = None" by (simp add: match_amount_None)
  then show "parseRaiseAmount (Some s) = None"
    by (simp add: parseRaiseAmount_def)
next
  assume a: "s \<noteq> [] \<and> s \<noteq> ''-'' \<and> s \<noteq> ''N/A'' \<and> amount_shape (cleaned s) ds suf"
  then have m: "match_amount (cleaned s) = Some (ds, if suf = [] then None else Some (hd suf))"
    using match_amount_shape by blast
  from a have suf: "suf = [] \<or> suf = ''K'' \<or> suf = ''M'' \<or> suf = ''B''"
    by (auto simp: amount_shape_def)
  from suf show "parseRaiseAmount (Some s) =
          map_option (\<lambda>num. times_number num (factor suf)) (parseFloat ds)"
    using a parseFloat_times_one [of ds]
    by (auto simp: parseRaiseAmount_def m factor_def split: option.splits)
next
  assume a: "s \<noteq> [] \<and> s \<noteq> ''-'' \<and> s \<noteq> ''N/A'' \<and> amount_shape (cleaned s) ds suf"
  then have "ds \<noteq> []" "list_all isDigitOrDot ds" by (auto simp: amount_shape_def)
  then show "parseFloat ds = None \<longleftrightarrow>
             (\<exists>t. ds = CHR ''.'' # t \<and> (t = [] \<or> hd t = CHR ''.''))"
    by (rule parseFloat_None)
next
  assume "list_all isDigit ip \<and> list_all isDigit fp \<and> (ip \<noteq> [] \<or> fp \<noteq> [])
        \<and> (rest = [] \<or> hd rest = CHR ''.'')"
  then show "parseFloat (ip @ CHR ''.'' # fp @ rest) = Some (to_double (decimal ip fp))"
    using parseFloat_leading by blast
next
  assume "list_all isDigit ip \<and> ip \<noteq> []"
  then show "parseFloat ip = Some (to_double (decimal ip []))"
    using parseFloat_digits by blast
next
  show "parseAmount a = parseRaiseAmount a"
    by (simp add: parseAmount_def parseRaiseAmount_def)
qed

theorem parseRaiseAmount_cases_witness:
  "parseRaiseAmount (Some ''$5.5M'') = Some (Finite 5500000)
   \<and> parseRaiseAmount (Some ''$4.1m'') = Some (Finite (8804682956799999 / 2147483648))
   \<and> parseAmount (Some ''$5.5M'') = Some (Finite 5500000)
   \<and> parseFloat ''5.5'' = Some (Finite (11 / 2))
   \<and> parseFloat ''12'' = Some (Finite 12)
   \<and> parseRaiseAmount (Some ''N/A'') = None
   \<and> parseRaiseAmount (Some ''12 MB'') = None"
proof -
  have shape: "amount_shape (cleaned ''$5.5M'') ''5.5'' ''M''"
    "amount_shape (cleaned ''$4.1m'') ''4.1'' ''M''"
    by (simp_all add: amount_shape_def amount_eval)
  have "match_amount (cleaned ''12 MB'') = None"
    by (simp add: amount_eval)
  then have noshape: "\<nexists>ds suf. amount_shape (cleaned ''12 MB'') ds suf"
    using match_amount_None by blast
  have d: "list_all isDigit ''5''" "list_all isDigit ''12''" "list_all isDigit ''4''"
    "list_all isDigit ''1''"
    by (simp_all add: isDigit_def)
  have v: "to_double (decimal ''5'' ''5'') = Finite (11 / 2)"
    "to_double (decimal ''12'' []) = Finite 12"
    "times_number (Finite (11 / 2)) (factor ''M'') = Finite 5500000"
    "to_double (decimal ''4'' ''1'') = Finite (2308094809027379 / 562949953421312)"
    "times_number (Finite (2308094809027379 / 562949953421312)) (factor ''M'')
       = Finite (8804682956799999 / 2147483648)"
    by (simp_all add: decimal_def digits_val_def factor_def number_eval)
  show ?thesis
    using parseRaiseAmount_cases [of "''$5.5M''" "''5.5''" "''M''" "''5''" "''5''" "[]"
        "Some ''$5.5M''"]
      parseRaiseAmount_cases [of "''$4.1m''" "''4.1''" "''M''" "''4''" "''1''" "[]" None]
      parseRaiseAmount_cases [of "''N/A''" "[]" "[]" "''12''" "[]" "[]" None]
      parseRaiseAmount_cases [of "''12 MB''" "[]" "[]" "[]" "[]" "[]" None] shape noshape d
    by (simp add: v)
qed

text \<open>
  The claim as written gives a number to every string that is none of the three
  literals and has the shape.  The string \<open>.\<close> is such a string, and the code returns
  null for it: \<open>parseFloat\<close> reads no number and the \<open>isNaN\<close> test returns null.
\<close>

theorem parseRaiseAmount_dot_counterexample:
  "''.'' \<noteq> [] \<and> ''.'' \<noteq> ''-'' \<and> ''.'' \<noteq> ''N/A''
   \<and> amount_shape (cleaned ''.'') ''.'' []
   \<and> parseRaiseAmount (Some ''.'') = None"
  by (simp add: amount_shape_def amount_eval)

section \<open>Properties of the retry wrappers\<close>

declare scrapeFund_loop.simps [simp del] scrapePage_loop.simps [simp del]
  scrapeProject_loop.simps [simp del]

lemma is_Attempt_simps [simp]:
  "is_Attempt (Attempt n)" "\<not> is_Attempt DropBrowser" "\<not> is_Attempt (RetryDelay ms)"
  by (simp_all add: is_Attempt_def)

lemma is_RetryDelay_simps [simp]:
  "\<not> is_RetryDelay (Attempt n)" "\<not> is_RetryDelay DropBrowser" "is_RetryDelay (RetryDelay ms)"
  by (simp_all add: is_RetryDelay_def)

lemma is_Raises_simps [simp]:
  "is_Raises (Raises msg)" "\<not> is_Raises (Extracted p)"
  by (simp_all add: is_Raises_def)

lemma raised_Raises [simp]: "raised (Raises msg) = msg"
  by (simp add: raised_def)

lemma is_RaisesE: "is_Raises out \<Longrightarrow> out = Raises (raised out)"
  by (cases out) simp_all

lemma attempts_of_failed_attempt [simp]:
  "filter is_Attempt (failed_attempt M k msg) = [Attempt k]"
  by (simp add: failed_attempt_def catch_events_def)

lemma visible_failed_attempt [simp]:
  "filter (\<lambda>e. is_Attempt e \<or> is_RetryDelay e) (failed_attempt M k msg) =
     (if k < M then [Attempt k, RetryDelay RETRY_DELAY_MS] else [Attempt k])"
  by (simp add: failed_attempt_def catch_events_def)

lemma scrapeFund_loop_Raises:
  "a \<le> M \<Longrightarrow> page a = Raises msg \<Longrightarrow>
   scrapeFund_loop M page a le evs =
     scrapeFund_loop M page (Suc a) (Some msg) (evs @ failed_attempt M a msg)"
  by (subst scrapeFund_loop.simps) (simp add: failed_attempt_def)

lemma scrapeFund_loop_no_links:
  "a < M \<Longrightarrow> page a = Extracted l \<Longrightarrow> \<not> hasAnyLinks l \<Longrightarrow>
   scrapeFund_loop M page a le evs =
     scrapeFund_loop M page (Suc a) (Some ''No social links found - retrying'')
       (evs @ failed_attempt M a ''No social links found - retrying'')"
  by (subst scrapeFund_loop.simps) (simp add: failed_attempt_def)

lemma scrapeFund_loop_no_links_last:
  "page M = Extracted l \<Longrightarrow> \<not> hasAnyLinks l \<Longrightarrow>
   scrapeFund_loop M page M le evs =
     (with_error l (Some ''No social links found''), evs @ [Attempt M])"
  by (subst scrapeFund_loop.simps) simp

lemma scrapeFund_loop_links:
  "a \<le> M \<Longrightarrow> page a = Extracted l \<Longrightarrow> hasAnyLinks l \<Longrightarrow>
   scrapeFund_loop M page a le evs = (with_error l None, evs @ [Attempt a])"
  by (subst scrapeFund_loop.simps) simp

lemma scrapeFund_loop_done:
  "M < a \<Longrightarrow>
   scrapeFund_loop M page a le evs = (with_error no_links (Some (last_message le)), evs)"
  by (subst scrapeFund_loop.simps) simp

lemma scrapeFund_loop_raises:
  "\<forall>k. a \<le> k \<and> k < a + n \<longrightarrow> is_Raises (page k) \<Longrightarrow> a + n \<le> Suc M \<Longrightarrow>
   scrapeFund_loop M page a le evs =
     scrapeFund_loop M page (a + n)
       (if n = 0 then le else Some (raised (page (a + n - 1))))
       (evs @ concat (map (\<lambda>k. failed_attempt M k (raised (page k))) [a..<a + n]))"
proof (induction n arbitrary: a le evs)
  case 0
  show ?case by simp
next
  case (Suc n)
  have pa: "page a = Raises (raised (page a))"
    using Suc.prems(1) by (intro is_RaisesE) simp
  have step: "scrapeFund_loop M page a le evs =
      scrapeFund_loop M page (Suc a) (Some (raised (page a)))
        (evs @ failed_attempt M a (raised (page a)))"
    using Suc.prems(2) pa by (intro scrapeFund_loop_Raises) simp_all
  have ih: "scrapeFund_loop M page (Suc a) (Some (raised (page a)))
        (evs @ failed_attempt M a (raised (page a))) =
      scrapeFund_loop M page (Suc a + n)
       (if n = 0 then Some (raised (page a)) else Some (raised (page (Suc a + n - 1))))
       ((evs @ failed_attempt M a (raised (page a)))
        @ concat (map (\<lambda>k. failed_attempt M k (raised (page k))) [Suc a..<Suc a + n]))"
    using Suc.prems by (intro Suc.IH) simp_all
  have upt: "[a..<a + Suc n] = a # [Suc a..<Suc a + n]"
    by (simp add: upt_conv_Cons)
  show ?case
    unfolding step ih upt by (cases n) simp_all
qed

lemma between_snoc:
  "between d (xs @ [x]) = concat (map (\<lambda>y. [y, d]) xs) @ [x]"
  by (induction d xs rule: between.induct) simp_all

lemma visible_failed_prefix:
  "b \<le> M \<Longrightarrow>
   filter (\<lambda>e. is_Attempt e \<or> is_RetryDelay e)
     (concat (map (\<lambda>k. failed_attempt M k (msg k)) [a..<b])) =
   concat (map (\<lambda>y. [y, RetryDelay RETRY_DELAY_MS]) (map Attempt [a..<b]))"
  by (induction b) (simp_all add: filter_concat comp_def)

lemma attempts_failed_prefix:
  "filter is_Attempt (concat (map (\<lambda>k. failed_attempt M k (msg k)) [a..<b])) = map Attempt [a..<b]"
  by (induction b) (simp_all add: filter_concat comp_def)

lemma visible_all_failed:
  "filter (\<lambda>e. is_Attempt e \<or> is_RetryDelay e)
     (concat (map (\<lambda>k. failed_attempt M k (msg k)) [1..<Suc M])) =
   between (RetryDelay RETRY_DELAY_MS) (map Attempt [1..<Suc M])"
proof (cases M)
  case 0
  then show ?thesis by simp
next
  case (Suc m)
  have "[1..<Suc M] = [1..<M] @ [M]" using Suc by simp
  then show ?thesis
    using visible_failed_prefix [of M M msg 1]
    by (simp add: between_snoc del: upt_Suc)
qed

lemma error_with_error [simp]: "error (with_error l e) = e"
  by (simp add: with_error_def links.extend_def)

lemma scrapeFund_loop_raises_upto:
  assumes "\<forall>k. a \<le> k \<and> k < b \<longrightarrow> is_Raises (page k)" "a \<le> b" "b \<le> Suc M"
  shows "scrapeFund_loop M page a le evs =
     scrapeFund_loop M page b (if a = b then le else Some (raised (page (b - 1))))
       (evs @ concat (map (\<lambda>k. failed_attempt M k (raised (page k))) [a..<b]))"
  using scrapeFund_loop_raises [of a "b - a" page M le evs] assms by simp

lemma visible_snoc_attempt:
  assumes "filter (\<lambda>e. is_Attempt e \<or> is_RetryDelay e) E =
      concat (map (\<lambda>y. [y, RetryDelay RETRY_DELAY_MS]) (map Attempt [1..<Suc N]))"
  shows "filter (\<lambda>e. is_Attempt e \<or> is_RetryDelay e) (E @ [Attempt (Suc N)]) =
      between (RetryDelay RETRY_DELAY_MS) (map Attempt [1..<Suc (Suc N)])"
proof -
  have "filter (\<lambda>e. is_Attempt e \<or> is_RetryDelay e) (E @ [Attempt (Suc N)]) =
      concat (map (\<lambda>y. [y, RetryDelay RETRY_DELAY_MS]) (map Attempt [1..<Suc N]))
      @ [Attempt (Suc N)]"
    unfolding filter_append assms by simp
  also have "\<dots> = between (RetryDelay RETRY_DELAY_MS) (map Attempt [1..<Suc N] @ [Attempt (Suc N)])"
    by (rule between_snoc [symmetric])
  also have "map Attempt [1..<Suc N] @ [Attempt (Suc N)] = map Attempt [1..<Suc (Suc N)]"
    by simp
  finally show ?thesis .
qed

lemma attempts_snoc_attempt:
  assumes "filter is_Attempt E = map Attempt [1..<Suc N]"
  shows "filter is_Attempt (E @ [Attempt (Suc N)]) = map Attempt [1..<Suc (Suc N)]"
  unfolding filter_append assms by simp

lemma scrapeFund_loop_retry_bound:
  assumes fails: "\<forall>k. 1 \<le> k \<and> k \<le> N \<longrightarrow> is_Raises (page k)"
    and succ: "page (N + 1) = Extracted l" "hasAnyLinks l"
  shows "(error (fst (scrapeFund_loop M page 1 None [])) = None \<longleftrightarrow> N < M)
     \<and> (N < M \<longrightarrow> fst (scrapeFund_loop M page 1 None []) = with_error l None)
     \<and> filter is_Attempt (snd (scrapeFund_loop M page 1 None []))
         = map Attempt [1..<Suc (min (N + 1) M)]
     \<and> filter (\<lambda>e. is_Attempt e \<or> is_RetryDelay e) (snd (scrapeFund_loop M page 1 None []))
         = between (RetryDelay RETRY_DELAY_MS) (map Attempt [1..<Suc (min (N + 1) M)])"
proof (cases "N < M")
  case True
  define E where "E = concat (map (\<lambda>k. failed_attempt M k (raised (page k))) [1..<Suc N])"
  have "scrapeFund_loop M page 1 None [] =
      scrapeFund_loop M page (Suc N) (if 1 = Suc N then None else Some (raised (page (Suc N - 1))))
        ([] @ concat (map (\<lambda>k. failed_attempt M k (raised (page k))) [1..<Suc N]))"
    using fails True by (intro scrapeFund_loop_raises_upto) auto
  also have "\<dots> = (with_error l None, E @ [Attempt (Suc N)])"
    using succ True unfolding E_def by (subst scrapeFund_loop_links [where l = l]) simp_all
  finally have run: "scrapeFund_loop M page 1 None [] = (with_error l None, E @ [Attempt (Suc N)])" .
  have m: "min (N + 1) M = Suc N" using True by simp
  have vis: "filter (\<lambda>e. is_Attempt e \<or> is_RetryDelay e) E =
      concat (map (\<lambda>y. [y, RetryDelay RETRY_DELAY_MS]) (map Attempt [1..<Suc N]))"
    unfolding E_def using True by (intro visible_failed_prefix) simp
  have att: "filter is_Attempt E = map Attempt [1..<Suc N]"
    unfolding E_def by (rule attempts_failed_prefix)
  show ?thesis
    unfolding run m fst_conv snd_conv
    using True visible_snoc_attempt [OF vis] attempts_snoc_attempt [OF att] by simp
next
  case False
  define E where "E = concat (map (\<lambda>k. failed_attempt M k (raised (page k))) [1..<Suc M])"
  have "scrapeFund_loop M page 1 None [] =
      scrapeFund_loop M page (Suc M) (if 1 = Suc M then None else Some (raised (page (Suc M - 1))))
        ([] @ concat (map (\<lambda>k. failed_attempt M k (raised (page k))) [1..<Suc M]))"
    using fails False by (intro scrapeFund_loop_raises_upto) auto
  also have "\<dots> = (with_error no_links
        (Some (last_message (if 1 = Suc M then None else Some (raised (page (Suc M - 1)))))), E)"
    unfolding E_def by (subst scrapeFund_loop_done) simp_all
  finally have run: "scrapeFund_loop M page 1 None [] = (with_error no_links
        (Some (last_message (if 1 = Suc M then None else Some (raised (page (Suc M - 1)))))), E)" .
  have m: "min (N + 1) M = M" using False by simp
  have vis: "filter (\<lambda>e. is_Attempt e \<or> is_RetryDelay e) E =
      between (RetryDelay RETRY_DELAY_MS) (map Attempt [1..<Suc M])"
    unfolding E_def by (rule visible_all_failed)
  have att: "filter is_Attempt E = map Attempt [1..<Suc M]"
    unfolding E_def by (rule attempts_failed_prefix)
  show ?thesis
    unfolding run m fst_conv snd_conv using False vis att by simp
qed


subsection \<open>The same for \<open>scrapePage\<close>\<close>

lemma scrapePage_loop_Raises:
  "a \<le> M \<Longrightarrow> page a = Raises msg \<Longrightarrow>
   scrapePage_loop M pp page a le evs =
     scrapePage_loop M pp page (Suc a) (Some msg) (evs @ failed_attempt M a msg)"
  by (subst scrapePage_loop.simps) (simp add: failed_attempt_def)

lemma scrapePage_loop_no_rows:
  "a < M \<Longrightarrow> page a = Extracted [] \<Longrightarrow>
   scrapePage_loop M pp page a le evs =
     scrapePage_loop M pp page (Suc a) (Some ''No funding rounds found - retrying'')
       (evs @ failed_attempt M a ''No funding rounds found - retrying'')"
  by (subst scrapePage_loop.simps) (simp add: failed_attempt_def)

lemma scrapePage_loop_no_rows_last:
  "page M = Extracted [] \<Longrightarrow>
   scrapePage_loop M pp page M le evs =
     (\<lparr>page_data = [], page_error = None\<rparr>, evs @ [Attempt M])"
  by (subst scrapePage_loop.simps) simp

lemma scrapePage_loop_rows:
  "a \<le> M \<Longrightarrow> page a = Extracted rawData \<Longrightarrow> rawData \<noteq> [] \<Longrightarrow>
   scrapePage_loop M pp page a le evs =
     (\<lparr>page_data = map pp rawData, page_error = None\<rparr>, evs @ [Attempt a])"
  by (subst scrapePage_loop.simps) simp

lemma scrapePage_loop_done:
  "M < a \<Longrightarrow>
   scrapePage_loop M pp page a le evs =
     (\<lparr>page_data = [], page_error = Some (last_message le)\<rparr>, evs)"
  by (subst scrapePage_loop.simps) simp

lemma scrapePage_loop_raises:
  "\<forall>k. a \<le> k \<and> k < a + n \<longrightarrow> is_Raises (page k) \<Longrightarrow> a + n \<le> Suc M \<Longrightarrow>
   scrapePage_loop M pp page a le evs =
     scrapePage_loop M pp page (a + n)
       (if n = 0 then le else Some (raised (page (a + n - 1))))
       (evs @ concat (map (\<lambda>k. failed_attempt M k (raised (page k))) [a..<a + n]))"
proof (induction n arbitrary: a le evs)
  case 0
  show ?case by simp
next
  case (Suc n)
  have pa: "page a = Raises (raised (page a))"
    using Suc.prems(1) by (intro is_RaisesE) simp
  have step: "scrapePage_loop M pp page a le evs =
      scrapePage_loop M pp page (Suc a) (Some (raised (page a)))
        (evs @ failed_attempt M a (raised (page a)))"
    using Suc.prems(2) pa by (intro scrapePage_loop_Raises) simp_all
  have ih: "scrapePage_loop M pp page (Suc a) (Some (raised (page a)))
        (evs @ failed_attempt M a (raised (page a))) =
      scrapePage_loop M pp page (Suc a + n)
       (if n = 0 then Some (raised (page a)) else Some (raised (page (Suc a + n - 1))))
       ((evs @ failed_attempt M a (raised (page a)))
        @ concat (map (\<lambda>k. failed_attempt M k (raised (page k))) [Suc a..<Suc a + n]))"
    using Suc.prems by (intro Suc.IH) simp_all
  have upt: "[a..<a + Suc n] = a # [Suc a..<Suc a + n]"
    by (simp add: upt_conv_Cons)
  show ?case
    unfolding step ih upt by (cases n) simp_all
qed

lemma scrapePage_loop_raises_upto:
  assumes "\<forall>k. a \<le> k \<and> k < b \<longrightarrow> is_Raises (page k)" "a \<le> b" "b \<le> Suc M"
  shows "scrapePage_loop M pp page a le evs =
     scrapePage_loop M pp page b (if a = b then le else Some (raised (page (b - 1))))
       (evs @ concat (map (\<lambda>k. failed_attempt M k (raised (page k))) [a..<b]))"
  using scrapePage_loop_raises [where a = a and n = "b - a" and page = page and M = M
      and pp = pp and le = le and evs = evs] assms by simp

lemma scrapePage_loop_retry_bound:
  assumes fails: "\<forall>k. 1 \<le> k \<and> k \<le> N \<longrightarrow> is_Raises (page k)"
    and succ: "page (N + 1) = Extracted rawData" "rawData \<noteq> []"
  shows "(page_error (fst (scrapePage_loop M pp page 1 None [])) = None \<longleftrightarrow> N < M)
     \<and> (N < M \<longrightarrow> fst (scrapePage_loop M pp page 1 None [])
                    = \<lparr>page_data = map pp rawData, page_error = None\<rparr>)
     \<and> filter is_Attempt (snd (scrapePage_loop M pp page 1 None []))
         = map Attempt [1..<Suc (min (N + 1) M)]
     \<and> filter (\<lambda>e. is_Attempt e \<or> is_RetryDelay e) (snd (scrapePage_loop M pp page 1 None []))
         = between (RetryDelay RETRY_DELAY_MS) (map Attempt [1..<Suc (min (N + 1) M)])"
proof (cases "N < M")
  case True
  define E where "E = concat (map (\<lambda>k. failed_attempt M k (raised (page k))) [1..<Suc N])"
  have "scrapePage_loop M pp page 1 None [] =
      scrapePage_loop M pp page (Suc N)
        (if 1 = Suc N then None else Some (raised (page (Suc N - 1))))
        ([] @ concat (map (\<lambda>k. failed_attempt M k (raised (page k))) [1..<Suc N]))"
    using fails True by (intro scrapePage_loop_raises_upto) auto
  also have "\<dots> = (\<lparr>page_data = map pp rawData, page_error = None\<rparr>, E @ [Attempt (Suc N)])"
    using succ True unfolding E_def
    by (subst scrapePage_loop_rows [where rawData = rawData]) simp_all
  finally have run: "scrapePage_loop M pp page 1 None [] =
      (\<lparr>page_data = map pp rawData, page_error = None\<rparr>, E @ [Attempt (Suc N)])" .
  have m: "min (N + 1) M = Suc N" using True by simp
  have vis: "filter (\<lambda>e. is_Attempt e \<or> is_RetryDelay e) E =
      concat (map (\<lambda>y. [y, RetryDelay RETRY_DELAY_MS]) (map Attempt [1..<Suc N]))"
    unfolding E_def using True by (intro visible_failed_prefix) simp
  have att: "filter is_Attempt E = map Attempt [1..<Suc N]"
    unfolding E_def by (rule attempts_failed_prefix)
  show ?thesis
    unfolding run m fst_conv snd_conv
    using True visible_snoc_attempt [OF vis] attempts_snoc_attempt [OF att] by simp
next
  case False
  define E where "E = concat (map (\<lambda>k. failed_attempt M k (raised (page k))) [1..<Suc M])"
  have "scrapePage_loop M pp page 1 None [] =
      scrapePage_loop M pp page (Suc M)
        (if 1 = Suc M then None else Some (raised (page (Suc M - 1))))
        ([] @ concat (map (\<lambda>k. failed_attempt M k (raised (page k))) [1..<Suc M]))"
    using fails False by (intro scrapePage_loop_raises_upto) auto
  also have "\<dots> = (\<lparr>page_data = [], page_error =
        Some (last_message (if 1 = Suc M then None else Some (raised (page (Suc M - 1)))))\<rparr>, E)"
    unfolding E_def by (subst scrapePage_loop_done) simp_all
  finally have run: "scrapePage_loop M pp page 1 None [] = (\<lparr>page_data = [], page_error =
        Some (last_message (if 1 = Suc M then None else Some (raised (page (Suc M - 1)))))\<rparr>, E)" .
  have m: "min (N + 1) M = M" using False by simp
  have vis: "filter (\<lambda>e. is_Attempt e \<or> is_RetryDelay e) E =
      between (RetryDelay RETRY_DELAY_MS) (map Attempt [1..<Suc M])"
    unfolding E_def by (rule visible_all_failed)
  have att: "filter is_Attempt E = map Attempt [1..<Suc M]"
    unfolding E_def by (rule attempts_failed_prefix)
  show ?thesis
    unfolding run m fst_conv snd_conv using False vis att by simp
qed

text \<open>
  C3.  Let the fetch throw on its first \<open>N\<close> calls and succeed (with at least one link,
  or at least one row) on call \<open>N + 1\<close>.  Then, for every attempt budget \<open>M\<close>, the
  wrapper returns a success (error null, with the payload of that call) if and only if
  \<open>N < M\<close>; it makes exactly \<open>min (N + 1) M\<close> attempts; and the attempts and the waits
  of \<open>RETRY_DELAY_MS\<close> alternate, with a wait between two attempts and none after the
  last.  This holds for \<open>scrapeFund\<close> and for \<open>scrapePage\<close>; the program runs both
  loops with \<open>M = MAX_RETRIES = 3\<close>.
\<close>

theorem retry_bound:
  assumes "\<forall>k. 1 \<le> k \<and> k \<le> N \<longrightarrow> is_Raises (fund_page k)"
    and "fund_page (N + 1) = Extracted l" and "hasAnyLinks l"
    and "\<forall>k. 1 \<le> k \<and> k \<le> N \<longrightarrow> is_Raises (rounds_page k)"
    and "rounds_page (N + 1) = Extracted rawData" and "rawData \<noteq> []"
  shows "(error (fst (scrapeFund_loop M fund_page 1 None [])) = None \<longleftrightarrow> N < M)
     \<and> (N < M \<longrightarrow> fst (scrapeFund_loop M fund_page 1 None []) = with_error l None)
     \<and> length (filter is_Attempt (snd (scrapeFund_loop M fund_page 1 None []))) = min (N + 1) M
     \<and> filter (\<lambda>e. is_Attempt e \<or> is_RetryDelay e) (snd (scrapeFund_loop M fund_page 1 None []))
         = between (RetryDelay RETRY_DELAY_MS) (map Attempt [1..<Suc (min (N + 1) M)])
     \<and> (page_error (fst (scrapePage_loop M pp rounds_page 1 None [])) = None \<longleftrightarrow> N < M)
     \<and> (N < M \<longrightarrow> fst (scrapePage_loop M pp rounds_page 1 None [])
                    = \<lparr>page_data = map pp rawData, page_error = None\<rparr>)
     \<and> length (filter is_Attempt (snd (scrapePage_loop M pp rounds_page 1 None [])))
         = min (N + 1) M
     \<and> filter (\<lambda>e. is_Attempt e \<or> is_RetryDelay e)
           (snd (scrapePage_loop M pp rounds_page 1 None []))
         = between (RetryDelay RETRY_DELAY_MS) (map Attempt [1..<Suc (min (N + 1) M)])"
proof -
  note f = scrapeFund_loop_retry_bound [OF assms(1-3), where M = M]
  note p = scrapePage_loop_retry_bound [OF assms(4-6), where M = M and pp = pp]
  have lf: "length (filter is_Attempt (snd (scrapeFund_loop M fund_page 1 None []))) = min (N + 1) M"
    using f by simp
  have lp: "length (filter is_Attempt (snd (scrapePage_loop M pp rounds_page 1 None [])))
      = min (N + 1) M"
    using p by simp
  show ?thesis using f p lf lp by blast
qed

theorem retry_bound_witness:
  "error (fst (scrapeFund_loop 3
       (\<lambda>k. if k \<le> 2 then Raises ''timeout'' else Extracted twitter_only) 1 None [])) = None
   \<and> filter (\<lambda>e. is_Attempt e \<or> is_RetryDelay e) (snd (scrapeFund_loop 3
       (\<lambda>k. if k \<le> 2 then Raises ''timeout'' else Extracted twitter_only) 1 None []))
     = [Attempt 1, RetryDelay 2000, Attempt 2, RetryDelay 2000, Attempt 3]
   \<and> page_error (fst (scrapePage_loop 3 id
       (\<lambda>k. if k \<le> 2 then Raises ''timeout'' else Extracted [7::nat]) 1 None [])) = None
   \<and> length (filter is_Attempt (snd (scrapePage_loop 3 id
       (\<lambda>k. if k \<le> 2 then Raises ''timeout'' else Extracted [7::nat]) 1 None []))) = 3"
proof -
  have h: "hasAnyLinks twitter_only"
    by (simp add: hasAnyLinks_def twitter_only_def no_links_def)
  have u: "[1..<Suc (min (2 + 1) 3)] = [1, 2, 3]"
    by (simp add: upt_conv_Cons)
  show ?thesis
    using retry_bound [where N = 2 and M = 3 and l = twitter_only and rawData = "[7::nat]"
        and fund_page = "\<lambda>k. if k \<le> 2 then Raises ''timeout'' else Extracted twitter_only"
        and rounds_page = "\<lambda>k. if k \<le> 2 then Raises ''timeout'' else Extracted [7::nat]"
        and pp = id] h
    unfolding u by (simp add: RETRY_DELAY_MS_def)
qed

lemma no_links_iff: "\<not> hasAnyLinks l \<longleftrightarrow> l = no_links"
  by (cases l) (auto simp: hasAnyLinks_def no_links_def)

lemma scrapeFund_loop_cong:
  "(\<And>k. a \<le> k \<Longrightarrow> page k = page' k) \<Longrightarrow>
   scrapeFund_loop M page a le evs = scrapeFund_loop M page' a le evs"
proof (induction "Suc M - a" arbitrary: a le evs)
  case 0
  then have "M < a" by simp
  then show ?case by (simp add: scrapeFund_loop_done)
next
  case (Suc n)
  then have le: "a \<le> M" and eq: "page a = page' a" by simp_all
  have ih: "scrapeFund_loop M page (a + 1) le' evs' = scrapeFund_loop M page' (a + 1) le' evs'"
    for le' evs'
    using Suc.hyps(2) Suc.prems by (intro Suc.hyps(1)) simp_all
  show ?case
  proof (cases "page a")
    case (Raises msg)
    then show ?thesis
      using le eq ih by (simp add: scrapeFund_loop_Raises [where msg = msg])
  next
    case (Extracted l)
    consider "hasAnyLinks l" | "\<not> hasAnyLinks l" "a < M" | "\<not> hasAnyLinks l" "a = M"
      using le by linarith
    then show ?thesis
    proof cases
      case 1
      then show ?thesis
        using le eq Extracted by (simp add: scrapeFund_loop_links [where l = l])
    next
      case 2
      then show ?thesis
        using eq Extracted ih by (simp add: scrapeFund_loop_no_links [where l = l])
    next
      case 3
      then show ?thesis
        using eq Extracted by (simp add: scrapeFund_loop_no_links_last [where l = l])
    qed
  qed
qed

lemma scrapePage_loop_cong:
  "(\<And>k. a \<le> k \<Longrightarrow> page k = page' k) \<Longrightarrow>
   scrapePage_loop M pp page a le evs = scrapePage_loop M pp page' a le evs"
proof (induction "Suc M - a" arbitrary: a le evs)
  case 0
  then have "M < a" by simp
  then show ?case by (simp add: scrapePage_loop_done)
next
  case (Suc n)
  then have le: "a \<le> M" and eq: "page a = page' a" by simp_all
  have ih: "scrapePage_loop M pp page (a + 1) le' evs' = scrapePage_loop M pp page' (a + 1) le' evs'"
    for le' evs'
    using Suc.hyps(2) Suc.prems by (intro Suc.hyps(1)) simp_all
  show ?case
  proof (cases "page a")
    case (Raises msg)
    then show ?thesis
      using le eq ih by (simp add: scrapePage_loop_Raises [where msg = msg])
  next
    case (Extracted rawData)
    consider "rawData \<noteq> []" | "rawData = []" "a < M" | "rawData = []" "a = M"
      using le by linarith
    then show ?thesis
    proof cases
      case 1
      then show ?thesis
        using le eq Extracted by (simp add: scrapePage_loop_rows [where rawData = rawData])
    next
      case 2
      then show ?thesis
        using eq Extracted ih by (simp add: scrapePage_loop_no_rows)
    next
      case 3
      then show ?thesis
        using eq Extracted by (simp add: scrapePage_loop_no_rows_last)
    qed
  qed
qed

lemma scrapeFund_loop_empty_as_error:
  assumes "a < M" "page a = Extracted l" "\<not> hasAnyLinks l"
  shows "scrapeFund_loop M page a le evs =
     scrapeFund_loop M (page(a := Raises ''No social links found - retrying'')) a le evs"
proof -
  let ?page' = "page(a := Raises ''No social links found - retrying'')"
  have "scrapeFund_loop M ?page' a le evs =
      scrapeFund_loop M ?page' (Suc a) (Some ''No social links found - retrying'')
        (evs @ failed_attempt M a ''No social links found - retrying'')"
    using assms(1) by (intro scrapeFund_loop_Raises) simp_all
  also have "\<dots> = scrapeFund_loop M page (Suc a) (Some ''No social links found - retrying'')
        (evs @ failed_attempt M a ''No social links found - retrying'')"
    by (rule scrapeFund_loop_cong) simp
  also have "\<dots> = scrapeFund_loop M page a le evs"
    using assms by (rule scrapeFund_loop_no_links [symmetric])
  finally show ?thesis by simp
qed

lemma scrapePage_loop_empty_as_error:
  assumes "a < M" "page a = Extracted []"
  shows "scrapePage_loop M pp page a le evs =
     scrapePage_loop M pp (page(a := Raises ''No funding rounds found - retrying'')) a le evs"
proof -
  let ?page' = "page(a := Raises ''No funding rounds found - retrying'')"
  have "scrapePage_loop M pp ?page' a le evs =
      scrapePage_loop M pp ?page' (Suc a) (Some ''No funding rounds found - retrying'')
        (evs @ failed_attempt M a ''No funding rounds found - retrying'')"
    using assms(1) by (intro scrapePage_loop_Raises) simp_all
  also have "\<dots> = scrapePage_loop M pp page (Suc a) (Some ''No funding rounds found - retrying'')
        (evs @ failed_attempt M a ''No funding rounds found - retrying'')"
    by (rule scrapePage_loop_cong) simp
  also have "\<dots> = scrapePage_loop M pp page a le evs"
    using assms by (rule scrapePage_loop_no_rows [symmetric])
  finally show ?thesis by simp
qed

text \<open>A run in which every attempt extracts nothing.\<close>

lemma scrapeFund_loop_all_empty:
  "\<forall>k. a \<le> k \<and> k < a + n \<longrightarrow> page k = Extracted no_links \<Longrightarrow> a + n \<le> M \<Longrightarrow>
   scrapeFund_loop M page a le evs =
     scrapeFund_loop M page (a + n)
       (if n = 0 then le else Some ''No social links found - retrying'')
       (evs @ concat (map (\<lambda>k. failed_attempt M k ''No social links found - retrying'')
                       [a..<a + n]))"
proof (induction n arbitrary: a le evs)
  case 0
  show ?case by simp
next
  case (Suc n)
  have step: "scrapeFund_loop M page a le evs =
      scrapeFund_loop M page (Suc a) (Some ''No social links found - retrying'')
        (evs @ failed_attempt M a ''No social links found - retrying'')"
    using Suc.prems by (intro scrapeFund_loop_no_links [where l = no_links])
      (simp_all add: no_links_iff)
  have ih: "scrapeFund_loop M page (Suc a) (Some ''No social links found - retrying'')
        (evs @ failed_attempt M a ''No social links found - retrying'') =
      scrapeFund_loop M page (Suc a + n)
       (if n = 0 then Some ''No social links found - retrying''
        else Some ''No social links found - retrying'')
       ((evs @ failed_attempt M a ''No social links found - retrying'')
        @ concat (map (\<lambda>k. failed_attempt M k ''No social links found - retrying'')
                    [Suc a..<Suc a + n]))"
    using Suc.prems by (intro Suc.IH) simp_all
  have upt: "[a..<a + Suc n] = a # [Suc a..<Suc a + n]"
    by (simp add: upt_conv_Cons)
  show ?case
    unfolding step ih upt by simp
qed

lemma scrapePage_loop_all_empty:
  "\<forall>k. a \<le> k \<and> k < a + n \<longrightarrow> page k = Extracted [] \<Longrightarrow> a + n \<le> M \<Longrightarrow>
   scrapePage_loop M pp page a le evs =
     scrapePage_loop M pp page (a + n)
       (if n = 0 then le else Some ''No funding rounds found - retrying'')
       (evs @ concat (map (\<lambda>k. failed_attempt M k ''No funding rounds found - retrying'')
                       [a..<a + n]))"
proof (induction n arbitrary: a le evs)
  case 0
  show ?case by simp
next
  case (Suc n)
  have step: "scrapePage_loop M pp page a le evs =
      scrapePage_loop M pp page (Suc a) (Some ''No funding rounds found - retrying'')
        (evs @ failed_attempt M a ''No funding rounds found - retrying'')"
    using Suc.prems by (intro scrapePage_loop_no_rows) simp_all
  have ih: "scrapePage_loop M pp page (Suc a) (Some ''No funding rounds found - retrying'')
        (evs @ failed_attempt M a ''No funding rounds found - retrying'') =
      scrapePage_loop M pp page (Suc a + n)
       (if n = 0 then Some ''No funding rounds found - retrying''
        else Some ''No funding rounds found - retrying'')
       ((evs @ failed_attempt M a ''No funding rounds found - retrying'')
        @ concat (map (\<lambda>k. failed_attempt M k ''No funding rounds found - retrying'')
                    [Suc a..<Suc a + n]))"
    using Suc.prems by (intro Suc.IH) simp_all
  have upt: "[a..<a + Suc n] = a # [Suc a..<Suc a + n]"
    by (simp add: upt_conv_Cons)
  show ?case
    unfolding step ih upt by simp
qed

lemma visible_then_last:
  assumes "1 \<le> M"
  shows "filter (\<lambda>e. is_Attempt e \<or> is_RetryDelay e)
      (concat (map (\<lambda>k. failed_attempt M k (msg k)) [1..<M]) @ [Attempt M]) =
    between (RetryDelay RETRY_DELAY_MS) (map Attempt [1..<Suc M])"
proof -
  obtain m where M: "M = Suc m" using assms by (cases M) simp_all
  have "filter (\<lambda>e. is_Attempt e \<or> is_RetryDelay e)
      (concat (map (\<lambda>k. failed_attempt M k (msg k)) [1..<Suc m])) =
      concat (map (\<lambda>y. [y, RetryDelay RETRY_DELAY_MS]) (map Attempt [1..<Suc m]))"
    by (intro visible_failed_prefix) (simp add: M)
  from visible_snoc_attempt [OF this] show ?thesis unfolding M .
qed

lemma scrapeFund_loop_run_empty:
  assumes "1 \<le> M" "\<forall>k. 1 \<le> k \<and> k \<le> M \<longrightarrow> page k = Extracted no_links"
  shows "fst (scrapeFund_loop M page 1 None []) = with_error no_links (Some ''No social links found'')"
    and "filter (\<lambda>e. is_Attempt e \<or> is_RetryDelay e) (snd (scrapeFund_loop M page 1 None []))
         = between (RetryDelay RETRY_DELAY_MS) (map Attempt [1..<Suc M])"
proof -
  have "scrapeFund_loop M page 1 None [] =
     scrapeFund_loop M page (1 + (M - 1))
       (if M - 1 = 0 then None else Some ''No social links found - retrying'')
       ([] @ concat (map (\<lambda>k. failed_attempt M k ''No social links found - retrying'')
                       [1..<1 + (M - 1)]))"
    using assms by (intro scrapeFund_loop_all_empty) auto
  also have "1 + (M - 1) = M" using assms by simp
  finally have "scrapeFund_loop M page 1 None [] =
     scrapeFund_loop M page M
       (if M - 1 = 0 then None else Some ''No social links found - retrying'')
       (concat (map (\<lambda>k. failed_attempt M k ''No social links found - retrying'') [1..<M]))"
    by simp
  also have "\<dots> = (with_error no_links (Some ''No social links found''),
      concat (map (\<lambda>k. failed_attempt M k ''No social links found - retrying'') [1..<M])
      @ [Attempt M])"
    using assms by (intro scrapeFund_loop_no_links_last) (simp_all add: no_links_iff)
  finally have run: "scrapeFund_loop M page 1 None [] =
      (with_error no_links (Some ''No social links found''),
       concat (map (\<lambda>k. failed_attempt M k ''No social links found - retrying'') [1..<M])
       @ [Attempt M])" .
  show "fst (scrapeFund_loop M page 1 None []) = with_error no_links (Some ''No social links found'')"
    unfolding run by simp
  show "filter (\<lambda>e. is_Attempt e \<or> is_RetryDelay e) (snd (scrapeFund_loop M page 1 None []))
         = between (RetryDelay RETRY_DELAY_MS) (map Attempt [1..<Suc M])"
    unfolding run snd_conv using assms(1) by (rule visible_then_last)
qed

lemma scrapePage_loop_run_empty:
  assumes "1 \<le> M" "\<forall>k. 1 \<le> k \<and> k \<le> M \<longrightarrow> page k = Extracted []"
  shows "fst (scrapePage_loop M pp page 1 None []) = \<lparr>page_data = [], page_error = None\<rparr>"
    and "filter (\<lambda>e. is_Attempt e \<or> is_RetryDelay e) (snd (scrapePage_loop M pp page 1 None []))
         = between (RetryDelay RETRY_DELAY_MS) (map Attempt [1..<Suc M])"
proof -
  have "scrapePage_loop M pp page 1 None [] =
     scrapePage_loop M pp page (1 + (M - 1))
       (if M - 1 = 0 then None else Some ''No funding rounds found - retrying'')
       ([] @ concat (map (\<lambda>k. failed_attempt M k ''No funding rounds found - retrying'')
                       [1..<1 + (M - 1)]))"
    using assms by (intro scrapePage_loop_all_empty) auto
  also have "1 + (M - 1) = M" using assms by simp
  finally have "scrapePage_loop M pp page 1 None [] =
     scrapePage_loop M pp page M
       (if M - 1 = 0 then None else Some ''No funding rounds found - retrying'')
       (concat (map (\<lambda>k. failed_attempt M k ''No funding rounds found - retrying'') [1..<M]))"
    by simp
  also have "\<dots> = (\<lparr>page_data = [], page_error = None\<rparr>,
      concat (map (\<lambda>k. failed_attempt M k ''No funding rounds found - retrying'') [1..<M])
      @ [Attempt M])"
    using assms by (intro scrapePage_loop_no_rows_last) simp_all
  finally have run: "scrapePage_loop M pp page 1 None [] =
      (\<lparr>page_data = [], page_error = None\<rparr>,
       concat (map (\<lambda>k. failed_attempt M k ''No funding rounds found - retrying'') [1..<M])
       @ [Attempt M])" .
  show "fst (scrapePage_loop M pp page 1 None []) = \<lparr>page_data = [], page_error = None\<rparr>"
    unfolding run by simp
  show "filter (\<lambda>e. is_Attempt e \<or> is_RetryDelay e) (snd (scrapePage_loop M pp page 1 None []))
         = between (RetryDelay RETRY_DELAY_MS) (map Attempt [1..<Suc M])"
    unfolding run snd_conv using assms(1) by (rule visible_then_last)
qed

text \<open>
  C4, as the code has it.  An attempt that navigates but extracts nothing is, while
  attempts remain, treated exactly as an attempt that throws: the run goes on as the
  run in which that attempt throws the error \<open>No social links found - retrying\<close> (for
  a fund) or \<open>No funding rounds found - retrying\<close> (for a page of rounds), so it is
  retried after the same wait.  On the final attempt the empty extraction is returned,
  not thrown.  \<open>scrapeFund\<close> then returns the empty payload with the error field set to
  \<open>No social links found\<close>; \<open>scrapePage\<close> returns no rows and the error field null.  In
  a run where every attempt extracts nothing, all \<open>M\<close> attempts are made, with a wait
  between two of them and none after the last.
\<close>

theorem empty_extraction:
  "(a < M \<and> fund_page a = Extracted l \<and> \<not> hasAnyLinks l \<longrightarrow>
      scrapeFund_loop M fund_page a lastError evs =
        scrapeFund_loop M (fund_page(a := Raises ''No social links found - retrying''))
          a lastError evs)
   \<and> (fund_page M = Extracted l \<and> \<not> hasAnyLinks l \<longrightarrow>
      scrapeFund_loop M fund_page M lastError evs =
        (with_error no_links (Some ''No social links found''), evs @ [Attempt M]))
   \<and> (1 \<le> M \<and> (\<forall>k. 1 \<le> k \<and> k \<le> M \<longrightarrow> fund_page k = Extracted no_links) \<longrightarrow>
      fst (scrapeFund_loop M fund_page 1 None []) =
        with_error no_links (Some ''No social links found'')
      \<and> filter (\<lambda>e. is_Attempt e \<or> is_RetryDelay e) (snd (scrapeFund_loop M fund_page 1 None []))
          = between (RetryDelay RETRY_DELAY_MS) (map Attempt [1..<Suc M]))
   \<and> (a < M \<and> rounds_page a = Extracted [] \<longrightarrow>
      scrapePage_loop M pp rounds_page a lastError evs =
        scrapePage_loop M pp (rounds_page(a := Raises ''No funding rounds found - retrying''))
          a lastError evs)
   \<and> (rounds_page M = Extracted [] \<longrightarrow>
      scrapePage_loop M pp rounds_page M lastError evs =
        (\<lparr>page_data = [], page_error = None\<rparr>, evs @ [Attempt M]))
   \<and> (1 \<le> M \<and> (\<forall>k. 1 \<le> k \<and> k \<le> M \<longrightarrow> rounds_page k = Extracted []) \<longrightarrow>
      fst (scrapePage_loop M pp rounds_page 1 None []) = \<lparr>page_data = [], page_error = None\<rparr>
      \<and> filter (\<lambda>e. is_Attempt e \<or> is_RetryDelay e)
            (snd (scrapePage_loop M pp rounds_page 1 None []))
          = between (RetryDelay RETRY_DELAY_MS) (map Attempt [1..<Suc M]))"
proof (intro conjI impI)
  assume "a < M \<and> fund_page a = Extracted l \<and> \<not> hasAnyLinks l"
  then show "scrapeFund_loop M fund_page a lastError evs =
        scrapeFund_loop M (fund_page(a := Raises ''No social links found - retrying''))
          a lastError evs"
    by (intro scrapeFund_loop_empty_as_error [where l = l]) simp_all
next
  assume "fund_page M = Extracted l \<and> \<not> hasAnyLinks l"
  then show "scrapeFund_loop M fund_page M lastError evs =
        (with_error no_links (Some ''No social links found''), evs @ [Attempt M])"
    using scrapeFund_loop_no_links_last [of fund_page M l lastError evs]
    by (simp add: no_links_iff)
next
  assume h: "1 \<le> M \<and> (\<forall>k. 1 \<le> k \<and> k \<le> M \<longrightarrow> fund_page k = Extracted no_links)"
  then show "fst (scrapeFund_loop M fund_page 1 None []) =
        with_error no_links (Some ''No social links found'')"
    by (intro scrapeFund_loop_run_empty) simp_all
  from h show "filter (\<lambda>e. is_Attempt e \<or> is_RetryDelay e)
        (snd (scrapeFund_loop M fund_page 1 None []))
      = between (RetryDelay RETRY_DELAY_MS) (map Attempt [1..<Suc M])"
    by (intro scrapeFund_loop_run_empty) simp_all
next
  assume "a < M \<and> rounds_page a = Extracted []"
  then show "scrapePage_loop M pp rounds_page a lastError evs =
        scrapePage_loop M pp (rounds_page(a := Raises ''No funding rounds found - retrying''))
          a lastError evs"
    by (intro scrapePage_loop_empty_as_error) simp_all
next
  assume "rounds_page M = Extracted []"
  then show "scrapePage_loop M pp rounds_page M lastError evs =
        (\<lparr>page_data = [], page_error = None\<rparr>, evs @ [Attempt M])"
    by (rule scrapePage_loop_no_rows_last)
next
  assume h: "1 \<le> M \<and> (\<forall>k. 1 \<le> k \<and> k \<le> M \<longrightarrow> rounds_page k = Extracted [])"
  then show "fst (scrapePage_loop M pp rounds_page 1 None []) = \<lparr>page_data = [], page_error = None\<rparr>"
    by (intro scrapePage_loop_run_empty) simp_all
  from h show "filter (\<lambda>e. is_Attempt e \<or> is_RetryDelay e)
        (snd (scrapePage_loop M pp rounds_page 1 None []))
      = between (RetryDelay RETRY_DELAY_MS) (map Attempt [1..<Suc M])"
    by (intro scrapePage_loop_run_empty) simp_all
qed

theorem empty_extraction_witness:
  "fst (scrapeFund_loop 3 (\<lambda>k. Extracted no_links) 1 None []) =
     with_error no_links (Some ''No social links found'')
   \<and> filter (\<lambda>e. is_Attempt e \<or> is_RetryDelay e)
        (snd (scrapeFund_loop 3 (\<lambda>k. Extracted no_links) 1 None []))
     = [Attempt 1, RetryDelay 2000, Attempt 2, RetryDelay 2000, Attempt 3]
   \<and> fst (scrapePage_loop 3 id (\<lambda>k. Extracted ([] :: nat list)) 1 None []) =
     \<lparr>page_data = [], page_error = None\<rparr>
   \<and> scrapeFund_loop 3 (\<lambda>k. Extracted no_links) 2 None [] =
     scrapeFund_loop 3 ((\<lambda>k. Extracted no_links)(2 := Raises ''No social links found - retrying''))
       2 None []
   \<and> scrapePage_loop 3 id (\<lambda>k. Extracted ([] :: nat list)) 3 None [] =
     (\<lparr>page_data = [], page_error = None\<rparr>, [Attempt 3])"
proof -
  have u: "[1..<Suc 3] = [1, 2, 3]"
    by (simp add: upt_conv_Cons)
  have n: "\<not> hasAnyLinks no_links"
    by (simp add: no_links_iff)
  show ?thesis
    using empty_extraction [where M = 3 and a = 2 and l = no_links and lastError = None
        and evs = "[]" and fund_page = "\<lambda>k. Extracted no_links" and pp = id
        and rounds_page = "\<lambda>k. Extracted ([] :: nat list)"]
      empty_extraction [where M = 3 and a = 3 and l = no_links and lastError = None
        and evs = "[]" and fund_page = "\<lambda>k. Extracted no_links" and pp = id
        and rounds_page = "\<lambda>k. Extracted ([] :: nat list)"] n
    unfolding u by (simp add: RETRY_DELAY_MS_def)
qed

text \<open>
  The claim as written has the empty outcome of the final attempt reported through the
  error field of what is returned.  For a page of funding rounds the error field is
  null: three attempts that find no row give the same object as a page that has none.
\<close>

theorem scrapePage_empty_counterexample:
  "fst (scrapePage (\<lambda>n. []) id (\<lambda>url n. Extracted ([] :: nat list)) 2)
     = \<lparr>page_data = [], page_error = None\<rparr>
   \<and> filter is_Attempt (snd (scrapePage (\<lambda>n. []) id (\<lambda>url n. Extracted ([] :: nat list)) 2))
     = [Attempt 1, Attempt 2, Attempt 3]"
  by (simp add: scrapePage_def MAX_RETRIES_def scrapePage_loop.simps failed_attempt_def
      catch_events_def connection_lost_def str_includes_def)

lemma with_error_parts [simp]:
  "website (with_error l e) = website l" "twitter (with_error l e) = twitter l"
  "telegram (with_error l e) = telegram l" "discord (with_error l e) = discord l"
  "medium (with_error l e) = medium l" "linkedin (with_error l e) = linkedin l"
  "github (with_error l e) = github l" "youtube (with_error l e) = youtube l"
  "facebook (with_error l e) = facebook l" "instagram (with_error l e) = instagram l"
  "reddit (with_error l e) = reddit l"
  by (simp_all add: with_error_def links.extend_def)

lemma no_links_parts [simp]:
  "website no_links = None" "twitter no_links = None" "telegram no_links = None"
  "discord no_links = None" "medium no_links = None" "linkedin no_links = None"
  "github no_links = None" "youtube no_links = None" "facebook no_links = None"
  "instagram no_links = None" "reddit no_links = None"
  by (simp_all add: no_links_def)

lemma scrapeFund_all_raise:
  assumes "\<forall>k. 1 \<le> k \<and> k \<le> MAX_RETRIES \<longrightarrow> is_Raises (browser' (CRYPTORANK_FUND_URL @ k') k)"
  shows "fst (scrapeFund browser' k') =
     with_error no_links
       (Some (last_message (Some (raised (browser' (CRYPTORANK_FUND_URL @ k') MAX_RETRIES)))))"
proof -
  let ?page = "browser' (CRYPTORANK_FUND_URL @ k')"
  have "scrapeFund_loop MAX_RETRIES ?page 1 None [] =
      scrapeFund_loop MAX_RETRIES ?page (Suc MAX_RETRIES)
        (if 1 = Suc MAX_RETRIES then None else Some (raised (?page (Suc MAX_RETRIES - 1))))
        ([] @ concat (map (\<lambda>k. failed_attempt MAX_RETRIES k (raised (?page k)))
                        [1..<Suc MAX_RETRIES]))"
    using assms by (intro scrapeFund_loop_raises_upto) auto
  also have "\<dots> = (with_error no_links (Some (last_message (Some (raised (?page MAX_RETRIES))))),
      concat (map (\<lambda>k. failed_attempt MAX_RETRIES k (raised (?page k))) [1..<Suc MAX_RETRIES]))"
    by (subst scrapeFund_loop_done) (simp_all add: MAX_RETRIES_def)
  finally show ?thesis by (simp add: scrapeFund_def)
qed

lemma last_message_Some: "last_message (Some m) = (if m = [] then ''Unknown error'' else m)"
  by (simp add: last_message_def truthy_def)

text \<open>
  C6, as the code has it.  When every attempt of \<open>scrapeFund\<close> on a fund throws, the
  wrapper returns (it is a total function: every error is caught) an object whose
  eleven link fields are null and whose error is the message \<open>m\<close> of the last error, or
  \<open>Unknown error\<close> when that message is empty.  The Record that \<open>main\<close> builds from it
  has the fund's \<open>id\<close>, \<open>key\<close>, \<open>name\<close>, \<open>tier\<close> and \<open>type\<close> and its URL, \<open>website\<close> and
  \<open>twitter\<close> null, no \<open>other_socials\<close>, and that error.
\<close>

theorem exhausted_retries_record:
  assumes "\<forall>k. 1 \<le> k \<and> k \<le> MAX_RETRIES \<longrightarrow>
             is_Raises (browser' (CRYPTORANK_FUND_URL @ key fund') k)"
    and "m = raised (browser' (CRYPTORANK_FUND_URL @ key fund') MAX_RETRIES)"
  shows "fst (scrapeFund browser' (key fund')) =
           with_error no_links (Some (if m = [] then ''Unknown error'' else m))
     \<and> result_record fund' (fst (scrapeFund browser' (key fund'))) now =
         \<lparr>id_f = id_f fund', key = key fund', name = name fund', tier = tier fund',
          type = type fund', url = Some (''https://cryptorank.io/funds/'' @ key fund'),
          scraped = with_error no_links (Some (if m = [] then ''Unknown error'' else m)),
          scrapedAt = now, other_socials = None\<rparr>"
proof -
  have r: "fst (scrapeFund browser' (key fund')) =
           with_error no_links (Some (if m = [] then ''Unknown error'' else m))"
    using scrapeFund_all_raise [where browser' = browser' and k' = "key fund'"] assms(1)
    unfolding assms(2) last_message_Some by blast
  have o: "or_null (Some (if m = [] then ''Unknown error'' else m)) =
      Some (if m = [] then ''Unknown error'' else m)"
    by (simp add: or_null_def truthy_def)
  have "result_record fund' (with_error no_links (Some (if m = [] then ''Unknown error'' else m))) now =
         \<lparr>id_f = id_f fund', key = key fund', name = name fund', tier = tier fund',
          type = type fund', url = Some (''https://cryptorank.io/funds/'' @ key fund'),
          scraped = with_error no_links (Some (if m = [] then ''Unknown error'' else m)),
          scrapedAt = now, other_socials = None\<rparr>"
    unfolding result_record_def otherSocials_def otherLinks_def
    by (simp add: o or_null_def truthy_def del: no_links_parts) (simp add: no_links_def)
  then show ?thesis using r by simp
qed

theorem exhausted_retries_record_witness:
  "fst (scrapeFund (\<lambda>url n. Raises ''timeout'') (key fund_a)) =
     with_error no_links (Some ''timeout'')
   \<and> result_record fund_a (fst (scrapeFund (\<lambda>url n. Raises ''timeout'') (key fund_a))) 7 =
     \<lparr>id_f = 1, key = ''a'', name = ''A'', tier = 1, type = ''Venture'',
      url = Some ''https://cryptorank.io/funds/a'',
      scraped = with_error no_links (Some ''timeout''),
      scrapedAt = 7, other_socials = None\<rparr>"
  using exhausted_retries_record [where browser' = "\<lambda>url n. Raises ''timeout''"
      and fund' = fund_a and m = "''timeout''" and now = 7]
  by (auto simp: fund_a_def)

text \<open>
  The claim as written has the error field equal to the message of the last failure.
  When the errors carry an empty message, the field is \<open>Unknown error\<close>.
\<close>

theorem empty_message_counterexample:
  "error (fst (scrapeFund (\<lambda>url n. Raises []) ''a'')) = Some ''Unknown error''
   \<and> raised ((\<lambda>url n. Raises [] :: links outcome) (CRYPTORANK_FUND_URL @ ''a'') MAX_RETRIES) = []"
  by (simp add: scrapeFund_def MAX_RETRIES_def scrapeFund_loop.simps last_message_def truthy_def)

section \<open>Properties of the runs\<close>

declare rounds_loop.simps [simp del]

lemma is_Scrape_simps [simp]:
  "\<not> is_Scrape Connect" "is_Scrape (Scrape t)" "\<not> is_Scrape (Save f)"
  "\<not> is_Scrape (Throttle ms)" "\<not> is_Scrape Disconnect"
  by (simp_all add: is_Scrape_def)

lemma is_Throttle_simps [simp]:
  "\<not> is_Throttle Connect" "\<not> is_Throttle (Scrape t)" "\<not> is_Throttle (Save f)"
  "is_Throttle (Throttle ms)" "\<not> is_Throttle Disconnect"
  by (simp_all add: is_Throttle_def)

lemma between_Cons: "between d (x # xs) = x # (if xs = [] then [] else d # between d xs)"
  by (cases xs) simp_all

lemma throttles_between:
  "length (filter is_Throttle (between (Throttle d) (map Scrape ks))) = length ks - 1"
  by (induction ks) (simp_all add: between_Cons)

lemma scrapes_between:
  "filter is_Scrape (between (Throttle d) (map Scrape ks)) = map Scrape ks"
  by (induction ks) (simp_all add: between_Cons)

lemma log_main_step:
  "log (main_step w t2 cache total' i f st) =
     log st @ [Scrape (key f),
               Save (savePartialResults (localeCompare w) cache (newResults (main_step w t2 cache total' i f st))
                       t2 (clock w 0) (clock w (3 * i + 2)) (clock w (3 * i + 3)))]
     @ (if int i < int total' - 1 then [Throttle DELAY_BETWEEN_REQUESTS_MS] else [])"
  by (simp add: main_step_def Let_def)

lemma newResults_main_step:
  "newResults (main_step w t2 cache total' i f st) =
     newResults st
     @ [result_record f (fst (scrapeFund (browser w (i + 1)) (key f))) (clock w (3 * i + 1))]"
  by (simp add: main_step_def Let_def)

lemma main_loop_log:
  "total' = i + length fs \<Longrightarrow>
   filter (\<lambda>e. is_Scrape e \<or> is_Throttle e) (log (main_loop w t2 cache total' i fs st)) =
     filter (\<lambda>e. is_Scrape e \<or> is_Throttle e) (log st)
     @ between (Throttle DELAY_BETWEEN_REQUESTS_MS) (map Scrape (map key fs))"
proof (induction fs arbitrary: i st)
  case Nil
  show ?case by simp
next
  case (Cons f fs)
  have d: "int i < int total' - 1 \<longleftrightarrow> fs \<noteq> []"
    using Cons.prems by auto
  have "total' = (i + 1) + length fs" using Cons.prems by simp
  from Cons.IH [OF this, of "main_step w t2 cache total' i f st"] show ?case
    unfolding main_loop.simps log_main_step d by (simp add: between_Cons)
qed

lemma log_details_step:
  "\<exists>written. log (details_step w rounds total' i p st) =
     log st @ [Scrape (js_string (projectKey p)), Save written]
     @ (if int i < int total' - 1 then [Throttle DELAY_BETWEEN_PROJECTS_MS] else [])"
  by (simp add: details_step_def Let_def)

lemma details_loop_log:
  "total' = i + length ps \<Longrightarrow>
   filter (\<lambda>e. is_Scrape e \<or> is_Throttle e) (log (details_loop w rounds total' i ps st)) =
     filter (\<lambda>e. is_Scrape e \<or> is_Throttle e) (log st)
     @ between (Throttle DELAY_BETWEEN_PROJECTS_MS)
         (map Scrape (map (\<lambda>p. js_string (projectKey p)) ps))"
proof (induction ps arbitrary: i st)
  case Nil
  show ?case by simp
next
  case (Cons p ps)
  have d: "int i < int total' - 1 \<longleftrightarrow> ps \<noteq> []"
    using Cons.prems by auto
  obtain written where
    l: "log (details_step w rounds total' i p st) =
          log st @ [Scrape (js_string (projectKey p)), Save written]
          @ (if int i < int total' - 1 then [Throttle DELAY_BETWEEN_PROJECTS_MS] else [])"
    using log_details_step by blast
  have "total' = (i + 1) + length ps" using Cons.prems by simp
  from Cons.IH [OF this, of "details_step w rounds total' i p st"] show ?case
    unfolding details_loop.simps l d by (simp add: between_Cons)
qed

lemma log_rounds_step:
  "\<exists>written. log (rounds_step w limit' pagesNeeded p st) =
     log st @ [Scrape p, Save written]
     @ (if p < pagesNeeded then [Throttle DELAY_BETWEEN_PAGES_MS] else [])"
  by (simp add: rounds_step_def Let_def)

lemma rounds_loop_unfold:
  "p \<le> pagesNeeded \<Longrightarrow>
   rounds_loop w limit' pagesNeeded p st =
     rounds_loop w limit' pagesNeeded (p + 1) (rounds_step w limit' pagesNeeded p st)"
  by (subst rounds_loop.simps) simp

lemma rounds_loop_log:
  "filter (\<lambda>e. is_Scrape e \<or> is_Throttle e) (log (rounds_loop w limit' pagesNeeded p st)) =
     filter (\<lambda>e. is_Scrape e \<or> is_Throttle e) (log st)
     @ between (Throttle DELAY_BETWEEN_PAGES_MS) (map Scrape [p..<Suc pagesNeeded])"
proof (induction "Suc pagesNeeded - p" arbitrary: p st)
  case 0
  then have "pagesNeeded < p" by simp
  then show ?case by (subst rounds_loop.simps) simp
next
  case (Suc n)
  then have le: "p \<le> pagesNeeded" by simp
  have upt: "[p..<Suc pagesNeeded] = p # [Suc p..<Suc pagesNeeded]"
    using le by (simp add: upt_conv_Cons)
  have e: "p < pagesNeeded \<longleftrightarrow> [Suc p..<Suc pagesNeeded] \<noteq> []"
    using le by auto
  obtain written where
    l: "log (rounds_step w limit' pagesNeeded p st) = log st @ [Scrape p, Save written]
            @ (if p < pagesNeeded then [Throttle DELAY_BETWEEN_PAGES_MS] else [])"
    using log_rounds_step by blast
  have "n = Suc pagesNeeded - (p + 1)" using Suc.hyps(2) by simp
  from Suc.hyps(1) [OF this, of "rounds_step w limit' pagesNeeded p st"] show ?case
    unfolding rounds_loop_unfold [OF le] l upt e by (simp add: between_Cons del: upt_Suc)
qed


lemma visible_Cons_hidden:
  "\<not> is_Scrape e \<Longrightarrow> \<not> is_Throttle e \<Longrightarrow>
   filter (\<lambda>e. is_Scrape e \<or> is_Throttle e) (e # es) =
     filter (\<lambda>e. is_Scrape e \<or> is_Throttle e) es"
  by simp

lemma fetch_by_flag:
  "(if t2 then fetchTier1And2Funds a else fetchTier1Funds a) = fetchFundsByTiers (targetTiers t2) a"
  by (simp add: fetchTier1And2Funds_def fetchTier1Funds_def targetTiers_def)

lemma main_api_error:
  "fetchFundsByTiers (targetTiers (tier2 w)) (api w) = Inl msg \<Longrightarrow>
   main w = \<lparr>events = [], ending = Exit1 msg\<rparr>"
  by (simp add: main_def fetch_by_flag tier2_def)

lemma submitted_Inl:
  "fetchFundsByTiers (targetTiers (tier2 w)) (api w) = Inl msg \<Longrightarrow> submitted w = []"
  by (simp add: submitted_def)

lemma submitted_Inr:
  "fetchFundsByTiers (targetTiers (tier2 w)) (api w) = Inr funds \<Longrightarrow> submitted w = funds"
  by (simp add: submitted_def)

lemma main_all_cached:
  assumes "fetchFundsByTiers (targetTiers (tier2 w)) (api w) = Inr funds" "to_scrape w = []"
  shows "main w = \<lparr>events = [], ending = FromCache\<rparr>"
proof -
  have "filter (\<lambda>f. \<not> map_has (cache_of w) (key f)) funds = []"
    using assms by (simp add: to_scrape_def submitted_Inr)
  then show ?thesis
    using assms(1) by (simp add: main_def fetch_by_flag tier2_def cache_of_def)
qed

lemma main_connect_error:
  assumes "fetchFundsByTiers (targetTiers (tier2 w)) (api w) = Inr funds" "to_scrape w \<noteq> []"
    "connect_error w = Some msg"
  shows "main w = \<lparr>events = [], ending = Exit1 msg\<rparr>"
proof -
  have "filter (\<lambda>f. \<not> map_has (cache_of w) (key f)) funds \<noteq> []"
    using assms by (simp add: to_scrape_def submitted_Inr)
  then show ?thesis
    using assms(1,3) by (simp add: main_def fetch_by_flag tier2_def cache_of_def)
qed

lemma main_scrapes:
  assumes "fetchFundsByTiers (targetTiers (tier2 w)) (api w) = Inr funds" "to_scrape w \<noteq> []"
    "connect_error w = None"
  shows "events (main w) = log (scraped_state w)
      @ [Disconnect,
         Save (final_output w (tier2 w) (cache_of w) (length (to_scrape w)) (scraped_state w))]"
    and "ending (main w) =
      (case final_write_error w of
         Some msg \<Rightarrow> Exit1 msg
       | None \<Rightarrow>
           Completed (final_output w (tier2 w) (cache_of w) (length (to_scrape w))
                        (scraped_state w)))"
proof -
  have f: "filter (\<lambda>f. \<not> map_has (cache_of w) (key f)) funds = to_scrape w"
    using assms(1) by (simp add: to_scrape_def submitted_Inr)
  have m: "main w =
    (let output = final_output w (tier2 w) (cache_of w) (length (to_scrape w)) (scraped_state w);
         evs = log (scraped_state w) @ [Disconnect, Save output]
     in case final_write_error w of
          Some msg \<Rightarrow> \<lparr>events = evs, ending = Exit1 msg\<rparr>
        | None \<Rightarrow> \<lparr>events = evs, ending = Completed output\<rparr>)"
    unfolding main_def fetch_by_flag scraped_state_def
    using assms by (simp add: Let_def tier2_def [symmetric] cache_of_def [symmetric] f)
  show "events (main w) = log (scraped_state w)
      @ [Disconnect,
         Save (final_output w (tier2 w) (cache_of w) (length (to_scrape w)) (scraped_state w))]"
    unfolding m by (simp add: Let_def split: option.splits)
  show "ending (main w) =
      (case final_write_error w of
         Some msg \<Rightarrow> Exit1 msg
       | None \<Rightarrow>
           Completed (final_output w (tier2 w) (cache_of w) (length (to_scrape w))
                        (scraped_state w)))"
    unfolding m by (simp add: Let_def split: option.splits)
qed

lemma main_events:
  "filter (\<lambda>e. is_Scrape e \<or> is_Throttle e) (events (main w)) =
     between (Throttle DELAY_BETWEEN_REQUESTS_MS) (map Scrape (fund_units w))"
proof (cases "fetchFundsByTiers (targetTiers (tier2 w)) (api w)")
  case (Inl msg)
  then show ?thesis
    by (simp add: main_api_error fund_units_def to_scrape_def submitted_Inl)
next
  case (Inr funds)
  show ?thesis
  proof (cases "to_scrape w = []")
    case True
    then show ?thesis using Inr by (simp add: main_all_cached fund_units_def)
  next
    case False
    show ?thesis
    proof (cases "connect_error w")
      case (Some msg)
      then show ?thesis using Inr False by (simp add: main_connect_error fund_units_def)
    next
      case None
      have "filter (\<lambda>e. is_Scrape e \<or> is_Throttle e) (log (scraped_state w)) =
          between (Throttle DELAY_BETWEEN_REQUESTS_MS) (map Scrape (map key (to_scrape w)))"
        unfolding scraped_state_def by (subst main_loop_log) simp_all
      then show ?thesis
        using None by (simp add: main_scrapes(1) [OF Inr False None] fund_units_def)
    qed
  qed
qed

lemma rounds_main_events:
  "filter (\<lambda>e. is_Scrape e \<or> is_Throttle e) (events (rounds_main w)) =
     between (Throttle DELAY_BETWEEN_PAGES_MS) (map Scrape (rounds_units w))"
proof -
  have loop: "filter (\<lambda>e. is_Scrape e \<or> is_Throttle e)
      (log (rounds_loop w l P (Suc 0)
             \<lparr>successCount = 0, failCount = 0, log = [Connect], allData = [],
              pagesScraped_so_far = 0\<rparr>)) =
      between (Throttle DELAY_BETWEEN_PAGES_MS) (map Scrape [Suc 0..<Suc P])" for l P
    by (subst rounds_loop_log) simp_all
  show ?thesis
    by (simp add: rounds_main_def rounds_units_def Let_def loop del: upt_Suc
        split: option.splits)
qed

lemma details_main_events:
  "filter (\<lambda>e. is_Scrape e \<or> is_Throttle e) (events (details_main w)) =
     between (Throttle DELAY_BETWEEN_PROJECTS_MS) (map Scrape (details_units w))"
proof -
  have loop: "total' = length ps \<Longrightarrow> filter (\<lambda>e. is_Scrape e \<or> is_Throttle e)
      (log (details_loop w rounds total' 0 ps
             \<lparr>successCount = 0, failCount = 0, log = [Connect], projectDetails = []\<rparr>)) =
      between (Throttle DELAY_BETWEEN_PROJECTS_MS)
        (map Scrape (map (\<lambda>p. js_string (projectKey p)) ps))" for rounds ps total'
    by (subst details_loop_log) simp_all
  show ?thesis
    by (simp add: details_main_def details_units_def Let_def loop
        split: sum.splits option.splits)
qed

lemma throttles_of_visible:
  "filter is_Throttle (filter (\<lambda>e. is_Scrape e \<or> is_Throttle e) es) = filter is_Throttle es"
  by (induction es) auto

lemma scrapes_of_visible:
  "filter is_Scrape (filter (\<lambda>e. is_Scrape e \<or> is_Throttle e) es) = filter is_Scrape es"
  by (induction es) auto

lemma units_and_throttles:
  assumes "filter (\<lambda>e. is_Scrape e \<or> is_Throttle e) es = between (Throttle d) (map Scrape ks)"
  shows "filter is_Scrape es = map Scrape ks"
    and "length (filter is_Throttle es) = length ks - 1"
proof -
  have "filter is_Scrape es = filter is_Scrape (filter (\<lambda>e. is_Scrape e \<or> is_Throttle e) es)"
    by (simp only: scrapes_of_visible)
  also have "\<dots> = filter is_Scrape (between (Throttle d) (map Scrape ks))"
    by (simp only: assms)
  also have "\<dots> = map Scrape ks"
    by (rule scrapes_between)
  finally show "filter is_Scrape es = map Scrape ks" .
  have "filter is_Throttle es = filter is_Throttle (filter (\<lambda>e. is_Scrape e \<or> is_Throttle e) es)"
    by (simp only: throttles_of_visible)
  also have "\<dots> = filter is_Throttle (between (Throttle d) (map Scrape ks))"
    by (simp only: assms)
  finally show "length (filter is_Throttle es) = length ks - 1"
    by (simp only: throttles_between)
qed

lemma fund_units_two_funds: "fund_units two_funds = [''a'', ''b'']"
  by (simp add: fund_units_def to_scrape_def submitted_def cache_of_def tier2_def two_funds_def
      parseArgs_def loadCache_def fetchFundsByTiers_def targetTiers_def fund_a_def fund_b_def
      map_has_def)

lemma rounds_units_three_pages: "rounds_units three_pages = [1, 2, 3]"
  by (simp add: rounds_units_def three_pages_def DEFAULT_LIMIT_def ITEMS_PER_PAGE_def
      upt_conv_Cons)

lemma details_units_two_projects: "details_units two_projects = [''x'', ''y'']"
  by (simp add: details_units_def two_projects_def extractUniqueProjects_def
      truthy_property_def project_of_def js_string_def)

text \<open>
  C8.  In every run of each of the three entry points, over units of work
  \<open>u\<^sub>1, \<dots>, u\<^sub>K\<close>, the units and the throttle waits happen in the order
  \<open>u\<^sub>1\<close>, wait, \<open>u\<^sub>2\<close>, wait, \<dots>, \<open>u\<^sub>K\<close>: a wait after each unit but the last, none
  before the first and none after the last.  So the wait is performed \<open>K - 1\<close> times
  (and not at all in a run without units, where \<open>K = 0\<close>).
\<close>

theorem throttle_between_units:
  "filter (\<lambda>e. is_Scrape e \<or> is_Throttle e) (events (main w)) =
     between (Throttle DELAY_BETWEEN_REQUESTS_MS) (map Scrape (fund_units w))
   \<and> filter is_Scrape (events (main w)) = map Scrape (fund_units w)
   \<and> length (filter is_Throttle (events (main w))) = length (fund_units w) - 1
   \<and> filter (\<lambda>e. is_Scrape e \<or> is_Throttle e) (events (rounds_main wr)) =
     between (Throttle DELAY_BETWEEN_PAGES_MS) (map Scrape (rounds_units wr))
   \<and> filter is_Scrape (events (rounds_main wr)) = map Scrape (rounds_units wr)
   \<and> length (filter is_Throttle (events (rounds_main wr))) = length (rounds_units wr) - 1
   \<and> filter (\<lambda>e. is_Scrape e \<or> is_Throttle e) (events (details_main wd)) =
     between (Throttle DELAY_BETWEEN_PROJECTS_MS) (map Scrape (details_units wd))
   \<and> filter is_Scrape (events (details_main wd)) = map Scrape (details_units wd)
   \<and> length (filter is_Throttle (events (details_main wd))) = length (details_units wd) - 1"
  using main_events [of w] units_and_throttles [OF main_events, of w]
    rounds_main_events [of wr] units_and_throttles [OF rounds_main_events, of wr]
    details_main_events [of wd] units_and_throttles [OF details_main_events, of wd]
  by simp

theorem throttle_between_units_witness:
  "filter (\<lambda>e. is_Scrape e \<or> is_Throttle e) (events (main two_funds)) =
     [Scrape ''a'', Throttle 1500, Scrape ''b'']
   \<and> length (filter is_Throttle (events (main two_funds))) = 1
   \<and> filter (\<lambda>e. is_Scrape e \<or> is_Throttle e) (events (rounds_main three_pages)) =
     [Scrape 1, Throttle 2000, Scrape 2, Throttle 2000, Scrape 3]
   \<and> filter (\<lambda>e. is_Scrape e \<or> is_Throttle e) (events (details_main two_projects)) =
     [Scrape ''x'', Throttle 2000, Scrape ''y'']"
  using throttle_between_units [of two_funds three_pages two_projects]
  unfolding fund_units_two_funds rounds_units_three_pages details_units_two_projects
  by (simp add: DELAY_BETWEEN_REQUESTS_MS_def DELAY_BETWEEN_PAGES_MS_def
      DELAY_BETWEEN_PROJECTS_MS_def)

section \<open>Properties of the cache and the merge\<close>

subsection \<open>Sorting rearranges\<close>

lemma mset_insert_sorted: "mset (insert_sorted cmp x ys) = add_mset x (mset ys)"
  by (induction ys) simp_all

lemma mset_array_sort: "mset (array_sort cmp xs) = mset xs"
  unfolding array_sort_def by (induction xs) (simp_all add: mset_insert_sorted)

lemma set_array_sort: "set (array_sort cmp xs) = set xs"
  using mset_array_sort [of cmp xs] by (rule mset_eq_setD)

lemma length_array_sort: "length (array_sort cmp xs) = length xs"
  using mset_array_sort [of cmp xs] by (rule mset_eq_length)

lemma distinct_map_array_sort:
  "distinct (map f (array_sort cmp xs)) = distinct (map f xs)"
proof -
  have "mset (map f (array_sort cmp xs)) = mset (map f xs)"
    by (simp add: mset_array_sort)
  then show ?thesis by (rule mset_eq_imp_distinct_iff)
qed



subsection \<open>Maps of Records\<close>

lemma map_of_map_set: "map_of (map_set k v m) = (map_of m)(k \<mapsto> v)"
  by (simp add: map_set_def AList.update_conv')

lemma keys_map_set: "fst ` set (map_set k v m) = insert k (fst ` set m)"
  by (simp add: map_set_def AList.dom_update)

lemma set_update_subset: "set (AList.update k v m) \<subseteq> insert (k, v) (set m)"
  by (induction m) auto

lemma keyed_Nil [simp]: "keyed []"
  by (simp add: keyed_def)

lemma keyed_map_set:
  assumes "keyed m" "key r = k"
  shows "keyed (map_set k r m)"
proof -
  have "distinct (map fst (map_set k r m))"
    using assms(1) by (simp add: keyed_def map_set_def AList.distinct_update)
  moreover have "\<forall>(k', r') \<in> set (map_set k r m). key r' = k'"
    using assms set_update_subset [of k r m]
    by (auto simp: keyed_def map_set_def list_all_iff)
  ultimately show ?thesis by (simp add: keyed_def list_all_iff)
qed


lemma keyed_key_values:
  "keyed m \<Longrightarrow> map key (map snd m) = map fst m"
  by (induction m) (auto simp: keyed_def)

subsection \<open>\<open>loadCache\<close>\<close>

lemma loadCache_not_stored [simp]:
  "loadCache Absent = []" "loadCache Unparseable = []" "loadCache OtherJson = []"
  by (simp_all add: loadCache_def)

lemma loadCache_Stored:
  "loadCache (Stored json) =
     foldl (\<lambda>cache r. if cacheable r then map_set (key r) r cache else cache) [] (data json)"
  by (simp add: loadCache_def cacheable_def)

lemma loadCache_fold_keyed:
  "keyed acc \<Longrightarrow>
   keyed (foldl (\<lambda>cache r. if cacheable r then map_set (key r) r cache else cache) acc rs)"
  by (induction rs arbitrary: acc) (simp_all add: keyed_map_set)

lemma keyed_loadCache: "keyed (loadCache f)"
  by (cases f) (simp_all add: loadCache_Stored loadCache_fold_keyed)

lemma loadCache_fold_lookup:
  "map_of (foldl (\<lambda>cache r. if cacheable r then map_set (key r) r cache else cache) acc rs) k =
     (if filter (\<lambda>r. key r = k \<and> cacheable r) rs = [] then map_of acc k
      else Some (last (filter (\<lambda>r. key r = k \<and> cacheable r) rs)))"
proof (induction rs rule: rev_induct)
  case Nil
  show ?case by simp
next
  case (snoc r rs)
  show ?case
    using snoc.IH by (simp add: map_of_map_set)
qed

lemma loadCache_lookup:
  "map_of (loadCache (Stored json)) k =
     (if filter (\<lambda>r. key r = k \<and> cacheable r) (data json) = [] then None
      else Some (last (filter (\<lambda>r. key r = k \<and> cacheable r) (data json))))"
  by (simp add: loadCache_Stored loadCache_fold_lookup)

lemma loadCache_cacheable:
  assumes "map_of (loadCache f) k = Some r"
  shows "cacheable r \<and> key r = k"
proof (cases f)
  case (Stored json)
  let ?xs = "filter (\<lambda>r. key r = k \<and> cacheable r) (data json)"
  from assms Stored have ne: "?xs \<noteq> []" and r: "r = last ?xs"
    by (auto simp: loadCache_lookup split: if_splits)
  from ne have "last ?xs \<in> set ?xs" by (rule last_in_set)
  then have "r \<in> set ?xs" unfolding r .
  then show ?thesis by simp
qed (use assms in simp_all)

lemma map_has_iff: "map_has m k \<longleftrightarrow> map_of m k \<noteq> None"
  by (simp add: map_has_def map_of_eq_None_iff)

subsection \<open>The merge\<close>

lemma ensure_url_same [simp]:
  "key (ensure_url k d) = key d" "tier (ensure_url k d) = tier d"
  "scraped (ensure_url k d) = scraped d" "name (ensure_url k d) = name d"
  by (simp_all add: ensure_url_def)

lemma cache_fold_keyed:
  "keyed acc \<Longrightarrow> list_all (\<lambda>(k, d). key d = k) cache \<Longrightarrow>
   keyed (foldl (\<lambda>m (k, d). map_set k (ensure_url k d) m) acc cache)"
  by (induction cache arbitrary: acc) (auto simp: keyed_map_set)

lemma cache_fold_lookup:
  "distinct (map fst cache) \<Longrightarrow>
   map_of (foldl (\<lambda>m (k, d). map_set k (ensure_url k d) m) [] cache) k =
     map_option (ensure_url k) (map_of cache k)"
proof (induction cache rule: rev_induct)
  case Nil
  show ?case by simp
next
  case (snoc p cache)
  obtain k' d where p: "p = (k', d)" by (cases p)
  from snoc.prems have dist: "distinct (map fst cache)" and fresh: "map_of cache k' = None"
    by (auto simp: p map_of_eq_None_iff)
  show ?case
    using snoc.IH [OF dist] fresh
    by (auto simp: p map_of_map_set map_add_def split: option.splits)
qed

lemma new_fold_keyed:
  "keyed acc \<Longrightarrow> keyed (foldl (\<lambda>m r. map_set (key r) r m) acc news)"
  by (induction news arbitrary: acc) (simp_all add: keyed_map_set)

lemma new_fold_lookup:
  "map_of (foldl (\<lambda>m r. map_set (key r) r m) acc news) k =
     (if filter (\<lambda>r. key r = k) news = [] then map_of acc k
      else Some (last (filter (\<lambda>r. key r = k) news)))"
proof (induction news rule: rev_induct)
  case Nil
  show ?case by simp
next
  case (snoc r news)
  show ?case
    using snoc.IH by (simp add: map_of_map_set)
qed

lemma keyed_allResultsMap:
  "keyed cache \<Longrightarrow> keyed (allResultsMap cache news)"
  unfolding allResultsMap_def
  by (intro new_fold_keyed cache_fold_keyed) (simp_all add: keyed_def)

lemma allResultsMap_lookup:
  "keyed cache \<Longrightarrow>
   map_of (allResultsMap cache news) k =
     (if filter (\<lambda>r. key r = k) news = [] then map_option (ensure_url k) (map_of cache k)
      else Some (last (filter (\<lambda>r. key r = k) news)))"
  unfolding allResultsMap_def by (simp add: new_fold_lookup cache_fold_lookup keyed_def)


lemma data_savePartialResults [simp]:
  "data (savePartialResults lc cache news t2 startTime t_gen t_now) = allResults lc cache news t2"
  by (simp add: savePartialResults_def Let_def)

lemma result_record_fields [simp]:
  "key (result_record f s n) = key f" "tier (result_record f s n) = tier f"
  "name (result_record f s n) = name f"
  "error (scraped (result_record f s n)) = or_null (error s)"
  "website (scraped (result_record f s n)) = or_null (website s)"
  "twitter (scraped (result_record f s n)) = or_null (twitter s)"
  by (simp_all add: result_record_def with_error_def links.extend_def no_links_def)

lemma hasAnyLink_result_record:
  "hasAnyLink (scraped (result_record f s n)) \<longleftrightarrow> truthy (website s) \<or> truthy (twitter s)"
  by (simp add: hasAnyLink_def result_record_def with_error_def links.extend_def no_links_def
      or_null_def truthy_def)

lemma cacheable_result_record:
  "cacheable (result_record f s n) \<longleftrightarrow>
     \<not> truthy (error s) \<and> (truthy (website s) \<or> truthy (twitter s))"
  by (simp add: cacheable_def hasAnyLink_result_record) (simp add: or_null_def truthy_def)

lemma loadCache_file_with_a: "loadCache file_with_a = [(''a'', cached_a)]"
  by (simp add: file_with_a_def loadCache_Stored cached_a_def cacheable_result_record
      truthy_def no_links_def with_error_def links.extend_def map_set_def fund_a_def)

section \<open>Properties of the fund scraper's runs\<close>

subsection \<open>What the fund scraper's loop collects\<close>

lemma main_step_new_record:
  "newResults (main_step w t2 cache total' i f st) = newResults st @ [new_record w i f]"
  by (simp add: newResults_main_step new_record_def)

lemma new_record_fields [simp]:
  "key (new_record w i f) = key f" "tier (new_record w i f) = tier f"
  by (simp_all add: new_record_def)

lemma key_main_loop:
  "map key (newResults (main_loop w t2 cache total' i fs st)) =
     map key (newResults st) @ map key fs"
  by (induction fs arbitrary: i st) (simp_all add: main_step_new_record)

lemma tier_main_loop:
  "map tier (newResults (main_loop w t2 cache total' i fs st)) =
     map tier (newResults st) @ map tier fs"
  by (induction fs arbitrary: i st) (simp_all add: main_step_new_record)

lemma key_newResults:
  "map key (newResults (scraped_state w)) = map key (to_scrape w)"
  unfolding scraped_state_def key_main_loop by simp

lemma tier_newResults:
  "map tier (newResults (scraped_state w)) = map tier (to_scrape w)"
  unfolding scraped_state_def tier_main_loop by simp

lemma tier_submitted: "f \<in> set (submitted w) \<Longrightarrow> tier f \<in> set (targetTiers (tier2 w))"
  by (auto simp: submitted_def fetchFundsByTiers_def split: api_response.splits)

lemma tier_to_scrape: "f \<in> set (to_scrape w) \<Longrightarrow> tier f \<in> set (targetTiers (tier2 w))"
  by (simp add: to_scrape_def tier_submitted)

lemma keys_to_scrape:
  "key ` set (to_scrape w) = key ` set (submitted w) - fst ` set (cache_of w)"
  by (auto simp: to_scrape_def map_has_def)

lemma tier_new:
  assumes "r \<in> set (newResults (scraped_state w))"
  shows "tier r \<in> set (targetTiers (tier2 w))"
proof -
  from assms have "tier r \<in> set (map tier (newResults (scraped_state w)))" by simp
  then have "tier r \<in> tier ` set (to_scrape w)" unfolding tier_newResults by simp
  then show ?thesis using tier_to_scrape by auto
qed




subsection \<open>The keys of the merged data\<close>

lemma keyed_member:
  assumes "keyed m"
  shows "r \<in> set (map snd m) \<longleftrightarrow> map_of m (key r) = Some r"
proof
  assume "r \<in> set (map snd m)"
  then obtain k where kr: "(k, r) \<in> set m" by auto
  with assms have "key r = k" by (auto simp: keyed_def list_all_iff)
  with kr assms show "map_of m (key r) = Some r" by (simp add: keyed_def)
next
  assume "map_of m (key r) = Some r"
  then have "(key r, r) \<in> set m" by (rule map_of_SomeD)
  then show "r \<in> set (map snd m)" by force
qed

lemma keys_allResults:
  assumes "keyed cache"
  shows "set (map key (allResults lc cache news t2)) =
     {k. \<exists>r. map_of (allResultsMap cache news) k = Some r \<and> tier r \<in> set (targetTiers t2)}"
proof -
  have m: "keyed (allResultsMap cache news)" using assms by (rule keyed_allResultsMap)
  have "set (allResults lc cache news t2) =
      {r \<in> set (map snd (allResultsMap cache news)). tier r \<in> set (targetTiers t2)}"
    by (simp add: allResults_def set_array_sort)
  also have "\<dots> = {r. map_of (allResultsMap cache news) (key r) = Some r
      \<and> tier r \<in> set (targetTiers t2)}"
    using keyed_member [OF m] by blast
  finally have s: "set (allResults lc cache news t2) =
      {r. map_of (allResultsMap cache news) (key r) = Some r \<and> tier r \<in> set (targetTiers t2)}" .
  show ?thesis
  proof (intro set_eqI iffI)
    fix k
    assume "k \<in> set (map key (allResults lc cache news t2))"
    then obtain r where "r \<in> set (allResults lc cache news t2)" "key r = k" by auto
    then show "k \<in> {k. \<exists>r. map_of (allResultsMap cache news) k = Some r
        \<and> tier r \<in> set (targetTiers t2)}"
      unfolding s by auto
  next
    fix k
    assume "k \<in> {k. \<exists>r. map_of (allResultsMap cache news) k = Some r
        \<and> tier r \<in> set (targetTiers t2)}"
    then obtain r where r: "map_of (allResultsMap cache news) k = Some r"
        "tier r \<in> set (targetTiers t2)" by auto
    from r(1) have "(k, r) \<in> set (allResultsMap cache news)" by (rule map_of_SomeD)
    with m have "key r = k" by (auto simp: keyed_def list_all_iff)
    with r have "r \<in> set (allResults lc cache news t2)" unfolding s by simp
    then show "k \<in> set (map key (allResults lc cache news t2))"
      using \<open>key r = k\<close> by force
  qed
qed

lemma distinct_keys_allResults:
  assumes "keyed cache"
  shows "distinct (map key (allResults lc cache news t2))"
proof -
  have m: "keyed (allResultsMap cache news)" using assms by (rule keyed_allResultsMap)
  then have "distinct (map key (map snd (allResultsMap cache news)))"
    by (simp only: keyed_key_values) (simp add: keyed_def)
  then have "distinct (map key (filter (\<lambda>f. tier f \<in> set (targetTiers t2))
      (map snd (allResultsMap cache news))))"
    by (rule distinct_map_filter)
  then show ?thesis
    by (simp only: allResults_def distinct_map_array_sort)
qed


subsection \<open>The output of a run\<close>

lemma data_final_output [simp]:
  "data (final_output w t2 cache n st) = allResults (localeCompare w) cache (newResults st) t2"
  by (simp add: final_output_def Let_def)

lemma main_Completed:
  assumes "ending (main w) = Completed out"
  shows "out = final_output w (tier2 w) (cache_of w) (length (to_scrape w)) (scraped_state w)"
    and "to_scrape w \<noteq> []" and "connect_error w = None"
proof -
  obtain funds where f: "fetchFundsByTiers (targetTiers (tier2 w)) (api w) = Inr funds"
    using assms main_api_error [of w]
    by (cases "fetchFundsByTiers (targetTiers (tier2 w)) (api w)") auto
  show ne: "to_scrape w \<noteq> []"
    using assms main_all_cached [OF f] by auto
  show c: "connect_error w = None"
    using assms main_connect_error [OF f ne] by (cases "connect_error w") auto
  show "out = final_output w (tier2 w) (cache_of w) (length (to_scrape w)) (scraped_state w)"
    using assms main_scrapes(2) [OF f ne c] by (auto split: option.splits)
qed

lemma main_FromCache:
  assumes "ending (main w) = FromCache"
  shows "to_scrape w = []" and "events (main w) = []"
proof -
  obtain funds where f: "fetchFundsByTiers (targetTiers (tier2 w)) (api w) = Inr funds"
    using assms main_api_error [of w]
    by (cases "fetchFundsByTiers (targetTiers (tier2 w)) (api w)") auto
  show e: "to_scrape w = []"
  proof (rule ccontr)
    assume ne: "to_scrape w \<noteq> []"
    show False
    proof (cases "connect_error w")
      case None
      from main_scrapes(2) [OF f ne None] assms show False by (auto split: option.splits)
    next
      case (Some msg)
      from main_connect_error [OF f ne Some] assms show False by simp
    qed
  qed
  show "events (main w) = []"
    using main_all_cached [OF f e] by simp
qed

lemma keyed_cache_of: "keyed (cache_of w)"
  by (simp add: cache_of_def keyed_loadCache)

lemma completed_keys:
  assumes "ending (main w) = Completed out"
  shows "distinct (map key (data out))"
    and "set (map key (data out)) =
      key ` set (to_scrape w)
      \<union> {k. \<exists>r. map_of (cache_of w) k = Some r \<and> tier r \<in> set (targetTiers (tier2 w))}"
proof -
  let ?news = "newResults (scraped_state w)"
  have out: "data out = allResults (localeCompare w) (cache_of w) ?news (tier2 w)"
    using main_Completed(1) [OF assms] by simp
  show "distinct (map key (data out))"
    unfolding out using keyed_cache_of by (rule distinct_keys_allResults)
  have look: "map_of (allResultsMap (cache_of w) ?news) k =
     (if filter (\<lambda>r. key r = k) ?news = [] then map_option (ensure_url k) (map_of (cache_of w) k)
      else Some (last (filter (\<lambda>r. key r = k) ?news)))" for k
    using keyed_cache_of by (rule allResultsMap_lookup)
  have new_keys: "filter (\<lambda>r. key r = k) ?news = [] \<longleftrightarrow> k \<notin> key ` set (to_scrape w)" for k
  proof -
    have "filter (\<lambda>r. key r = k) ?news = [] \<longleftrightarrow> k \<notin> set (map key ?news)"
      by (auto simp: filter_empty_conv)
    then show ?thesis unfolding key_newResults by simp
  qed
  have fresh: "map_of (cache_of w) k = None" if "k \<in> key ` set (to_scrape w)" for k
    using that by (auto simp: to_scrape_def map_has_iff)
  have new_tier: "tier (last (filter (\<lambda>r. key r = k) ?news)) \<in> set (targetTiers (tier2 w))"
    if "filter (\<lambda>r. key r = k) ?news \<noteq> []" for k
  proof -
    from that have "last (filter (\<lambda>r. key r = k) ?news) \<in> set (filter (\<lambda>r. key r = k) ?news)"
      by (rule last_in_set)
    then have "last (filter (\<lambda>r. key r = k) ?news) \<in> set ?news" by simp
    then show ?thesis by (rule tier_new)
  qed
  show "set (map key (data out)) =
      key ` set (to_scrape w)
      \<union> {k. \<exists>r. map_of (cache_of w) k = Some r \<and> tier r \<in> set (targetTiers (tier2 w))}"
  proof (intro set_eqI iffI)
    fix k
    assume "k \<in> set (map key (data out))"
    then obtain r where r: "map_of (allResultsMap (cache_of w) ?news) k = Some r"
        "tier r \<in> set (targetTiers (tier2 w))"
      unfolding out keys_allResults [OF keyed_cache_of] by auto
    show "k \<in> key ` set (to_scrape w)
      \<union> {k. \<exists>r. map_of (cache_of w) k = Some r \<and> tier r \<in> set (targetTiers (tier2 w))}"
    proof (cases "k \<in> key ` set (to_scrape w)")
      case True
      then show ?thesis by simp
    next
      case False
      then have "map_option (ensure_url k) (map_of (cache_of w) k) = Some r"
        using r(1) unfolding look new_keys by simp
      then obtain d where "map_of (cache_of w) k = Some d" "r = ensure_url k d" by auto
      then show ?thesis using r(2) by simp
    qed
  next
    fix k
    assume "k \<in> key ` set (to_scrape w)
      \<union> {k. \<exists>r. map_of (cache_of w) k = Some r \<and> tier r \<in> set (targetTiers (tier2 w))}"
    then consider "k \<in> key ` set (to_scrape w)"
      | d where "k \<notin> key ` set (to_scrape w)" "map_of (cache_of w) k = Some d"
          "tier d \<in> set (targetTiers (tier2 w))"
      by blast
    then have "\<exists>r. map_of (allResultsMap (cache_of w) ?news) k = Some r
        \<and> tier r \<in> set (targetTiers (tier2 w))"
    proof cases
      case 1
      then have ne: "filter (\<lambda>r. key r = k) ?news \<noteq> []" unfolding new_keys by simp
      then show ?thesis unfolding look using new_tier [OF ne] by simp
    next
      case 2
      then show ?thesis unfolding look new_keys by simp
    qed
    then show "k \<in> set (map key (data out))"
      unfolding out keys_allResults [OF keyed_cache_of] by simp
  qed
qed

subsection \<open>Example runs\<close>

lemma scrapeFund_first_success:
  assumes "browser' (CRYPTORANK_FUND_URL @ k) 1 = Extracted l" "hasAnyLinks l"
  shows "fst (scrapeFund browser' k) = with_error l None"
  unfolding scrapeFund_def
  using assms by (subst scrapeFund_loop_links [where l = l]) (simp_all add: MAX_RETRIES_def)

lemma hasAnyLinks_examples [simp]: "hasAnyLinks twitter_only" "hasAnyLinks linkedin_only"
  by (simp_all add: hasAnyLinks_def twitter_only_def linkedin_only_def no_links_def)

lemma allResults_one_new:
  assumes "tier r \<in> set (targetTiers t2)"
  shows "allResults lc [] [r] t2 = [r]"
  using assms by (simp add: allResults_def allResultsMap_def map_set_def array_sort_def)

text \<open>The world with the LinkedIn page only, and its second run.\<close>

lemma linkedin_world_facts:
  "tier2 linkedin_world = False" "cache_of linkedin_world = []"
  "fetchFundsByTiers (targetTiers (tier2 linkedin_world)) (api linkedin_world) = Inr [fund_a]"
  "to_scrape linkedin_world = [fund_a]" "connect_error linkedin_world = None"
  "final_write_error linkedin_world = None"
  by (simp_all add: linkedin_world_def tier2_def parseArgs_def cache_of_def to_scrape_def
      submitted_def fetchFundsByTiers_def targetTiers_def fund_a_def map_has_def)

lemma linkedin_new_record: "new_record linkedin_world 0 fund_a = linkedin_record"
proof -
  have "fst (scrapeFund (browser linkedin_world (0 + 1)) (key fund_a)) = with_error linkedin_only None"
    by (rule scrapeFund_first_success) (simp_all add: linkedin_world_def)
  then show ?thesis
    by (simp add: new_record_def linkedin_record_def) (simp add: linkedin_world_def)
qed

lemma linkedin_newResults: "newResults (scraped_state linkedin_world) = [linkedin_record]"
  by (simp add: scraped_state_def linkedin_world_facts main_step_new_record linkedin_new_record)

lemma linkedin_ending:
  "ending (main linkedin_world) =
     Completed (final_output linkedin_world False [] 1 (scraped_state linkedin_world))"
proof -
  have ne: "to_scrape linkedin_world \<noteq> []"
    by (simp add: linkedin_world_facts)
  from main_scrapes(2) [OF linkedin_world_facts(3) ne linkedin_world_facts(5)]
  show ?thesis by (simp add: linkedin_world_facts)
qed

lemma linkedin_final_records: "final_records linkedin_world = [linkedin_record]"
proof -
  have "tier linkedin_record \<in> set (targetTiers False)"
    by (simp add: linkedin_record_def fund_a_def targetTiers_def)
  then show ?thesis
    by (simp add: final_records_def persisted_def linkedin_ending linkedin_newResults
        allResults_one_new)
qed

lemma linkedin_record_not_cacheable: "\<not> cacheable linkedin_record"
  by (simp add: linkedin_record_def cacheable_result_record linkedin_only_def truthy_def
      no_links_def with_error_def links.extend_def)

lemma linkedin_rerun_cache: "cache_of (rerun linkedin_world) = []"
proof -
  have "persisted linkedin_world (main linkedin_world) =
      Some (Stored (final_output linkedin_world False [] 1 (scraped_state linkedin_world)))"
    by (simp add: persisted_def linkedin_ending)
  then have "cache_of (rerun linkedin_world) =
      loadCache (Stored (final_output linkedin_world False [] 1 (scraped_state linkedin_world)))"
    by (simp add: rerun_def cache_of_def tier2_def linkedin_world_facts(1) [unfolded tier2_def])
  also have "\<dots> = []"
  proof -
    have "data (final_output linkedin_world False [] 1 (scraped_state linkedin_world))
        = [linkedin_record]"
      using linkedin_final_records
      by (simp add: final_records_def persisted_def linkedin_ending)
    then show ?thesis
      unfolding loadCache_Stored by (simp add: linkedin_record_not_cacheable)
  qed
  finally show ?thesis .
qed

lemma linkedin_rerun_units: "fund_units (rerun linkedin_world) = [''a'']"
proof -
  have r: "argv (rerun linkedin_world) = []" "api (rerun linkedin_world) = FundsData [fund_a]"
      "connect_error (rerun linkedin_world) = None"
    by (simp_all add: rerun_def linkedin_world_def split: option.splits)
  have "submitted (rerun linkedin_world) = [fund_a]"
    by (simp add: submitted_def tier2_def r parseArgs_def fetchFundsByTiers_def targetTiers_def
        fund_a_def)
  then show ?thesis
    by (simp add: fund_units_def to_scrape_def linkedin_rerun_cache map_has_def r fund_a_def)
qed

text \<open>The world that starts from the stored Record of fund \<open>a\<close> and is given fund \<open>b\<close>.\<close>

lemma b_after_a_facts:
  "tier2 b_after_a = False" "cache_of b_after_a = [(''a'', cached_a)]"
  "fetchFundsByTiers (targetTiers (tier2 b_after_a)) (api b_after_a) = Inr [fund_b]"
  "submitted b_after_a = [fund_b]"
  "to_scrape b_after_a = [fund_b]" "connect_error b_after_a = None"
  "final_write_error b_after_a = None"
proof -
  show t: "tier2 b_after_a = False"
    by (simp add: b_after_a_def tier2_def parseArgs_def)
  show c: "cache_of b_after_a = [(''a'', cached_a)]"
    by (simp add: cache_of_def t loadCache_file_with_a) (simp add: b_after_a_def loadCache_file_with_a)
  show f: "fetchFundsByTiers (targetTiers (tier2 b_after_a)) (api b_after_a) = Inr [fund_b]"
    by (simp add: t) (simp add: b_after_a_def fetchFundsByTiers_def targetTiers_def fund_b_def)
  show s: "submitted b_after_a = [fund_b]"
    using f by (simp add: submitted_def)
  show "to_scrape b_after_a = [fund_b]"
    by (simp add: to_scrape_def s c map_has_def fund_b_def)
  show "connect_error b_after_a = None" "final_write_error b_after_a = None"
    by (simp_all add: b_after_a_def)
qed

lemma b_after_a_ending:
  "ending (main b_after_a) =
     Completed (final_output b_after_a False [(''a'', cached_a)] 1 (scraped_state b_after_a))"
proof -
  have ne: "to_scrape b_after_a \<noteq> []"
    by (simp add: b_after_a_facts)
  from main_scrapes(2) [OF b_after_a_facts(3) ne b_after_a_facts(6)]
  show ?thesis by (simp add: b_after_a_facts)
qed

text \<open>The two funds on an empty disk.\<close>

lemma two_funds_facts:
  "tier2 two_funds = False" "cache_of two_funds = []"
  "fetchFundsByTiers (targetTiers (tier2 two_funds)) (api two_funds) = Inr [fund_a, fund_b]"
  "submitted two_funds = [fund_a, fund_b]"
  "to_scrape two_funds = [fund_a, fund_b]" "connect_error two_funds = None"
  "final_write_error two_funds = None"
proof -
  show t: "tier2 two_funds = False"
    by (simp add: two_funds_def tier2_def parseArgs_def)
  show c: "cache_of two_funds = []"
    by (simp add: cache_of_def t) (simp add: two_funds_def)
  show f: "fetchFundsByTiers (targetTiers (tier2 two_funds)) (api two_funds) = Inr [fund_a, fund_b]"
    by (simp add: t)
      (simp add: two_funds_def fetchFundsByTiers_def targetTiers_def fund_a_def fund_b_def)
  show s: "submitted two_funds = [fund_a, fund_b]"
    using f by (simp add: submitted_def)
  show "to_scrape two_funds = [fund_a, fund_b]"
    by (simp add: to_scrape_def s c map_has_def)
  show "connect_error two_funds = None" "final_write_error two_funds = None"
    by (simp_all add: two_funds_def)
qed

lemma two_funds_ending:
  "ending (main two_funds) =
     Completed (final_output two_funds False [] 2 (scraped_state two_funds))"
proof -
  have ne: "to_scrape two_funds \<noteq> []"
    by (simp add: two_funds_facts)
  from main_scrapes(2) [OF two_funds_facts(3) ne two_funds_facts(6)]
  show ?thesis by (simp add: two_funds_facts numeral_2_eq_2)
qed

subsection \<open>What the funding rounds scraper collects\<close>

lemma rounds_step_data:
  "allData (rounds_step w limit' pagesNeeded p st) =
     allData st @ concat (map (\<lambda>p. page_data (page_result w p))
                            (filter (\<lambda>p. \<not> truthy (page_error (page_result w p))) [p]))"
  "pagesScraped_so_far (rounds_step w limit' pagesNeeded p st) =
     pagesScraped_so_far st
     + length (filter (\<lambda>p. \<not> truthy (page_error (page_result w p))) [p])"
  by (simp_all add: rounds_step_def Let_def page_result_def)

lemma rounds_loop_data:
  "allData (rounds_loop w limit' pagesNeeded p st) =
     allData st @ concat (map (\<lambda>p. page_data (page_result w p))
        (filter (\<lambda>p. \<not> truthy (page_error (page_result w p))) [p..<Suc pagesNeeded]))
   \<and> pagesScraped_so_far (rounds_loop w limit' pagesNeeded p st) =
     pagesScraped_so_far st
     + length (filter (\<lambda>p. \<not> truthy (page_error (page_result w p))) [p..<Suc pagesNeeded])"
proof (induction "Suc pagesNeeded - p" arbitrary: p st)
  case 0
  then have "pagesNeeded < p" by simp
  then show ?case by (subst (1 2) rounds_loop.simps) simp
next
  case (Suc n)
  then have le: "p \<le> pagesNeeded" by simp
  have upt: "[p..<Suc pagesNeeded] = p # [Suc p..<Suc pagesNeeded]"
    using le by (simp add: upt_conv_Cons)
  have "n = Suc pagesNeeded - (p + 1)" using Suc.hyps(2) by simp
  from Suc.hyps(1) [OF this, of "rounds_step w limit' pagesNeeded p st"] show ?case
    unfolding rounds_loop_unfold [OF le] upt rounds_step_data by (simp del: upt_Suc)
qed

lemma rounds_main_data:
  assumes "connect_error w = None" "final_write_error w = None"
  shows "\<exists>out. ending (rounds_main w) = Completed out
     \<and> data out = concat (map (\<lambda>p. page_data (page_result w p)) (pages_ok w))
     \<and> pagesScraped (metadata out) = length (pages_ok w)
     \<and> totalRounds (metadata out) = length (data out)"
proof -
  let ?st = "rounds_loop w (rounds_limit w) (pages_needed w) 1
      \<lparr>successCount = 0, failCount = 0, log = [Connect], allData = [],
       pagesScraped_so_far = 0\<rparr>"
  let ?out = "saveResults (allData ?st) (rounds_limit w) (pagesScraped_so_far ?st) (clock w 0)
      False (clock w (2 * pages_needed w + 2)) (clock w (2 * pages_needed w + 3))"
  have e: "ending (rounds_main w) = Completed ?out"
    using assms
    by (simp add: rounds_main_def Let_def rounds_limit_def [symmetric] pages_needed_def)
  have d: "allData ?st = concat (map (\<lambda>p. page_data (page_result w p)) (pages_ok w))"
    "pagesScraped_so_far ?st = length (pages_ok w)"
    using rounds_loop_data [of w "rounds_limit w" "pages_needed w" 1]
    by (simp_all add: pages_ok_def del: upt_Suc)
  show ?thesis
    unfolding e using d by (simp add: saveResults_def)
qed

lemma page_result_three_pages:
  "1 \<le> p \<Longrightarrow> page_result three_pages p = \<lparr>page_data = [p, p], page_error = None\<rparr>"
  by (simp add: page_result_def scrapePage_def three_pages_def MAX_RETRIES_def
      scrapePage_loop_rows)

lemma pages_three_pages:
  "pages_needed three_pages = 3" "pages_ok three_pages = [1, 2, 3]"
proof -
  show n: "pages_needed three_pages = 3"
    by (simp add: pages_needed_def rounds_limit_def three_pages_def DEFAULT_LIMIT_def
        ITEMS_PER_PAGE_def)
  show "pages_ok three_pages = [1, 2, 3]"
    unfolding pages_ok_def n
    by (simp add: upt_conv_Cons page_result_three_pages truthy_def)
qed

text \<open>The world in which the only fund listed is stored already.\<close>

lemma a_cached_facts:
  "tier2 a_cached = False" "cache_of a_cached = [(''a'', cached_a)]"
  "api a_cached = FundsData [fund_a]" "submitted a_cached = [fund_a]"
proof -
  show t: "tier2 a_cached = False"
    by (simp add: a_cached_def tier2_def parseArgs_def)
  show "cache_of a_cached = [(''a'', cached_a)]"
    by (simp add: cache_of_def t loadCache_file_with_a) (simp add: a_cached_def loadCache_file_with_a)
  show "api a_cached = FundsData [fund_a]"
    by (simp add: a_cached_def)
  show "submitted a_cached = [fund_a]"
    by (simp add: submitted_def t) (simp add: a_cached_def fetchFundsByTiers_def targetTiers_def fund_a_def)
qed

lemma fetch_FundsData:
  "api w = FundsData d \<Longrightarrow>
   fetchFundsByTiers (targetTiers (tier2 w)) (api w) = Inr (submitted w)"
  by (simp add: submitted_def fetchFundsByTiers_def)

text \<open>
  C1, as the code has it.  For the fund scraper: when a run ends with its final write,
  the data written holds at most one Record per key, and its keys are exactly the
  submitted keys that were not in the cache, together with the keys of the cached
  Records whose tier is a target tier; the number of Records is the number of these
  keys.  So a cached key stays in the data whether or not it was submitted, and a
  submitted key that is cached is in the data only through its cached Record.  A run
  ends with its final write when the source answers, some submitted key is not cached,
  and the connection and the final write succeed.  When the source answers and every
  submitted key is cached, the run does nothing: it does not connect, fetches nothing
  and writes nothing, and the file stays as it was; and only then does a run end that
  way.  For the funding rounds scraper, whose targets are the pages 1 to
  \<open>pages_needed\<close> and whose Records are the rows found on them, a run whose connection
  and final write succeed writes the rows of the pages that came back without an
  error, page after page in the order of the pages, each page's rows as they were
  returned; a page that fails leaves no Record, and \<open>pagesScraped\<close> counts the pages
  that did not fail.
\<close>

theorem final_keys:
  "(ending (main w) = Completed out \<longrightarrow>
      distinct (map key (data out))
      \<and> set (map key (data out)) =
          (key ` set (submitted w) - fst ` set (cache_of w))
          \<union> {k. \<exists>r. map_of (cache_of w) k = Some r \<and> tier r \<in> set (targetTiers (tier2 w))}
      \<and> length (data out) =
          card ((key ` set (submitted w) - fst ` set (cache_of w))
                \<union> {k. \<exists>r. map_of (cache_of w) k = Some r
                       \<and> tier r \<in> set (targetTiers (tier2 w))}))
   \<and> (api w = FundsData d \<and> \<not> key ` set (submitted w) \<subseteq> fst ` set (cache_of w)
        \<and> connect_error w = None \<and> final_write_error w = None \<longrightarrow>
      (\<exists>out'. ending (main w) = Completed out'))
   \<and> (api w = FundsData d \<and> key ` set (submitted w) \<subseteq> fst ` set (cache_of w) \<longrightarrow>
      main w = \<lparr>events = [], ending = FromCache\<rparr>
      \<and> persisted w (main w) = Some (files w (output_file w)))
   \<and> (ending (main w) = FromCache \<longrightarrow>
      key ` set (submitted w) \<subseteq> fst ` set (cache_of w) \<and> events (main w) = [])
   \<and> (connect_error rw = None \<and> final_write_error rw = None \<longrightarrow>
      (\<exists>rout. ending (rounds_main rw) = Completed rout
         \<and> data rout = concat (map (\<lambda>p. page_data (page_result rw p)) (pages_ok rw))
         \<and> pagesScraped (metadata rout) = length (pages_ok rw)
         \<and> totalRounds (metadata rout) = length (data rout)))"
proof (intro conjI impI)
  assume c: "ending (main w) = Completed out"
  show d: "distinct (map key (data out))"
    using c by (rule completed_keys)
  show s: "set (map key (data out)) =
          (key ` set (submitted w) - fst ` set (cache_of w))
          \<union> {k. \<exists>r. map_of (cache_of w) k = Some r \<and> tier r \<in> set (targetTiers (tier2 w))}"
    using completed_keys(2) [OF c] unfolding keys_to_scrape .
  have "length (data out) = card (set (map key (data out)))"
    using distinct_card [OF d] by simp
  then show "length (data out) =
          card ((key ` set (submitted w) - fst ` set (cache_of w))
                \<union> {k. \<exists>r. map_of (cache_of w) k = Some r
                       \<and> tier r \<in> set (targetTiers (tier2 w))})"
    unfolding s .
next
  assume a: "api w = FundsData d \<and> \<not> key ` set (submitted w) \<subseteq> fst ` set (cache_of w)
        \<and> connect_error w = None \<and> final_write_error w = None"
  then have f: "fetchFundsByTiers (targetTiers (tier2 w)) (api w) = Inr (submitted w)"
    using fetch_FundsData by blast
  from a have "key ` set (to_scrape w) \<noteq> {}"
    unfolding keys_to_scrape by blast
  then have ne: "to_scrape w \<noteq> []" by auto
  from a have c: "connect_error w = None" and fw: "final_write_error w = None" by simp_all
  show "\<exists>out'. ending (main w) = Completed out'"
    using main_scrapes(2) [OF f ne c] by (simp add: fw)
next
  assume a: "api w = FundsData d \<and> key ` set (submitted w) \<subseteq> fst ` set (cache_of w)"
  then have f: "fetchFundsByTiers (targetTiers (tier2 w)) (api w) = Inr (submitted w)"
    using fetch_FundsData by blast
  from a have "key ` set (to_scrape w) = {}"
    unfolding keys_to_scrape by blast
  then have e: "to_scrape w = []" by simp
  show m: "main w = \<lparr>events = [], ending = FromCache\<rparr>"
    using f e by (rule main_all_cached)
  show "persisted w (main w) = Some (files w (output_file w))"
    unfolding m by (simp add: persisted_def output_file_def tier2_def)
next
  assume f: "ending (main w) = FromCache"
  have "key ` set (to_scrape w) = {}"
    using main_FromCache(1) [OF f] by simp
  then show "key ` set (submitted w) \<subseteq> fst ` set (cache_of w)"
    unfolding keys_to_scrape by blast
  show "events (main w) = []"
    using f by (rule main_FromCache(2))
next
  assume "connect_error rw = None \<and> final_write_error rw = None"
  then show "\<exists>rout. ending (rounds_main rw) = Completed rout
         \<and> data rout = concat (map (\<lambda>p. page_data (page_result rw p)) (pages_ok rw))
         \<and> pagesScraped (metadata rout) = length (pages_ok rw)
         \<and> totalRounds (metadata rout) = length (data rout)"
    using rounds_main_data by blast
qed

theorem final_keys_witness:
  "set (map key (data (final_output two_funds False [] 2 (scraped_state two_funds))))
     = {''a'', ''b''}
   \<and> length (data (final_output two_funds False [] 2 (scraped_state two_funds))) = 2
   \<and> ending (main two_funds) =
       Completed (final_output two_funds False [] 2 (scraped_state two_funds))
   \<and> main a_cached = \<lparr>events = [], ending = FromCache\<rparr>
   \<and> (\<exists>rout. ending (rounds_main three_pages) = Completed rout
        \<and> data rout = [1, 1, 2, 2, 3, 3] \<and> pagesScraped (metadata rout) = 3)"
proof -
  have k: "key ` set (submitted two_funds) - fst ` set (cache_of two_funds)
      \<union> {k. \<exists>r. map_of (cache_of two_funds) k = Some r
             \<and> tier r \<in> set (targetTiers (tier2 two_funds))} = {''a'', ''b''}"
    by (simp add: two_funds_facts fund_a_def fund_b_def)
  have c: "key ` set (submitted a_cached) \<subseteq> fst ` set (cache_of a_cached)"
    by (simp add: a_cached_facts fund_a_def)
  have r: "connect_error three_pages = None" "final_write_error three_pages = None"
    by (simp_all add: three_pages_def)
  have rows: "concat (map (\<lambda>p. page_data (page_result three_pages p)) (pages_ok three_pages))
      = [1, 1, 2, 2, 3, 3]"
    by (simp add: pages_three_pages page_result_three_pages)
  show ?thesis
    using final_keys [of two_funds "final_output two_funds False [] 2 (scraped_state two_funds)"
        "[fund_a, fund_b]" three_pages]
      final_keys [of a_cached "final_output two_funds False [] 2 (scraped_state two_funds)"
        "[fund_a]" three_pages]
      two_funds_ending c r a_cached_facts(3)
    unfolding k rows by (simp add: pages_three_pages) (auto simp: numeral_3_eq_3)
qed

text \<open>
  The claim as written has the final data hold the submitted keys and no other.  With
  fund \<open>a\<close> stored by an earlier run and fund \<open>b\<close> the only target submitted, the final
  data holds two Records, for \<open>a\<close> and for \<open>b\<close>.
\<close>

theorem cached_key_stays_counterexample:
  "map key (submitted b_after_a) = [''b'']
   \<and> set (map key (final_records b_after_a)) = {''a'', ''b''}
   \<and> length (final_records b_after_a) = 2"
proof -
  let ?out = "final_output b_after_a False [(''a'', cached_a)] 1 (scraped_state b_after_a)"
  have rec: "final_records b_after_a = data ?out"
    by (simp add: final_records_def persisted_def b_after_a_ending)
  have t: "tier cached_a = 1"
    by (simp add: cached_a_def fund_a_def)
  have "{k. \<exists>r. map_of (cache_of b_after_a) k = Some r
      \<and> tier r \<in> set (targetTiers (tier2 b_after_a))} = {''a''}"
    by (auto simp: b_after_a_facts targetTiers_def t split: if_splits)
  then have keys: "set (map key (data ?out)) = {''a'', ''b''}"
    using completed_keys(2) [OF b_after_a_ending]
    by (simp add: b_after_a_facts fund_b_def insert_commute)
  have "length (data ?out) = card (set (map key (data ?out)))"
    using distinct_card [OF completed_keys(1) [OF b_after_a_ending]] by simp
  then have "length (data ?out) = 2"
    unfolding keys by simp
  then show ?thesis
    using keys by (simp only: rec) (simp add: b_after_a_facts fund_b_def)
qed

text \<open>
  C2, on an input where the code departs from it.  A fund whose page shows a LinkedIn
  link and no other is scraped without error, so the first run leaves a ResultSet in
  which every Record has error null; the link is stored under \<open>other_socials\<close>.  The
  second run, on the same upstream source and that file, scrapes the fund again:
  \<open>loadCache\<close> looks for links at the top level of a Record only and does not take
  this Record into the cache.
\<close>

theorem second_run_scrapes_again:
  "map (\<lambda>r. error (scraped r)) (final_records linkedin_world) = [None]
   \<and> map other_socials (final_records linkedin_world)
       = [Some [(''linkedin'', ''https://linkedin.com/a'')]]
   \<and> filter is_Scrape (events (main (rerun linkedin_world))) = [Scrape ''a'']"
proof -
  have e: "error (scraped linkedin_record) = None"
    by (simp add: linkedin_record_def or_null_def truthy_def)
  have o: "other_socials linkedin_record = Some [(''linkedin'', ''https://linkedin.com/a'')]"
    by (simp add: linkedin_record_def result_record_def otherSocials_def otherLinks_def
        linkedin_only_def no_links_def with_error_def links.extend_def)
  have "filter is_Scrape (events (main (rerun linkedin_world))) =
      map Scrape (fund_units (rerun linkedin_world))"
    using main_events by (rule units_and_throttles(1))
  then show ?thesis
    by (simp add: linkedin_final_records e o linkedin_rerun_units)
qed

text \<open>
  C7, on an input where the code departs from it.  The Record that the fund scraper
  stores for a fund with a LinkedIn link only has error null and a populated
  \<open>other_socials\<close>, and \<open>loadCache\<close> returns the empty map for a ResultSet that holds
  it.
\<close>

theorem loadCache_misses_other_socials:
  "error (scraped linkedin_record) = None
   \<and> other_socials linkedin_record = Some [(''linkedin'', ''https://linkedin.com/a'')]
   \<and> loadCache (Stored \<lparr>metadata = md, data = [linkedin_record]\<rparr>) = []"
proof -
  have e: "error (scraped linkedin_record) = None"
    by (simp add: linkedin_record_def or_null_def truthy_def)
  have o: "other_socials linkedin_record = Some [(''linkedin'', ''https://linkedin.com/a'')]"
    by (simp add: linkedin_record_def result_record_def otherSocials_def otherLinks_def
        linkedin_only_def no_links_def with_error_def links.extend_def)
  show ?thesis
    by (simp add: e o loadCache_Stored linkedin_record_not_cacheable)
qed

end
